theory Spec2Isabelle
  imports Complex_Main "HOL-Library.Log_Nat" "HOL-Library.Word"
begin

section \<open>JavaScript numbers\<close>

text \<open>
  Every number of \<^verbatim>\<open>hexaimage.js\<close> is an IEEE 754 binary64 value. A finite one is the
  rational it denotes; the two infinities and NaN are values of their own. The two zeros
  are identified: no operation of the transform tells them apart.
\<close>

datatype jsnum = NaN | NegInf | Fin rat | PosInf

text \<open>\<open>expo x\<close> is the binary exponent \<open>\<lfloor>log\<^sub>2 x\<rfloor>\<close> of a positive rational.\<close>

definition expo :: "rat \<Rightarrow> int" where
  "expo x = (let (p, q) = quotient_of x; d = bitlen p - bitlen q
             in if 2 powi d \<le> x then d else d - 1)"

text \<open>Rounding to the nearest integer, ties to the even one.\<close>

definition rhe :: "rat \<Rightarrow> int" where
  "rhe y = (let f = \<lfloor>y\<rfloor>; d = y - of_int f
            in if d < 1/2 then f else if 1/2 < d then f + 1
               else if even f then f else f + 1)"

text \<open>
  \<open>rnd x\<close> is the binary64 value nearest to \<open>x\<close>, ties to even: a significand of 53 bits
  in the normal range, multiples of \<open>2\<^sup>-\<^sup>1\<^sup>0\<^sup>7\<^sup>4\<close> below it. \<open>fl\<close> adds the overflow
  to an infinity. Every arithmetic operation returns \<open>fl\<close> of the exact result.
\<close>

definition rnd :: "rat \<Rightarrow> rat" where
  "rnd x = (if x = 0 then 0
            else let e = max (expo \<bar>x\<bar> - 52) (- 1074)
                 in of_int (rhe (x / 2 powi e)) * 2 powi e)"

definition fl :: "rat \<Rightarrow> jsnum" where
  "fl x = (let y = rnd x
           in if of_int (2 ^ 1024) \<le> y then PosInf
              else if y \<le> - of_int (2 ^ 1024) then NegInf
              else Fin y)"

text \<open>
  An integer below \<open>2\<^sup>5\<^sup>3\<close> is a binary64 value: image dimensions, loop counters and
  integer literals enter the arithmetic through \<open>num\<close>.
\<close>

definition num :: "nat \<Rightarrow> jsnum" where
  "num n = Fin (of_nat n)"

definition inf_of :: "rat \<Rightarrow> jsnum" where
  "inf_of s = (if 0 < s then PosInf else if s < 0 then NegInf else NaN)"

fun sign_of :: "jsnum \<Rightarrow> rat" where
  "sign_of NaN = 0"
| "sign_of NegInf = - 1"
| "sign_of (Fin x) = sgn x"
| "sign_of PosInf = 1"

fun js_mul :: "jsnum \<Rightarrow> jsnum \<Rightarrow> jsnum" where
  "js_mul (Fin x) (Fin y) = fl (x * y)"
| "js_mul NaN _ = NaN"
| "js_mul _ NaN = NaN"
| "js_mul a b = inf_of (sign_of a * sign_of b)"

fun js_add :: "jsnum \<Rightarrow> jsnum \<Rightarrow> jsnum" where
  "js_add (Fin x) (Fin y) = fl (x + y)"
| "js_add NaN _ = NaN"
| "js_add _ NaN = NaN"
| "js_add PosInf NegInf = NaN"
| "js_add NegInf PosInf = NaN"
| "js_add PosInf _ = PosInf"
| "js_add _ PosInf = PosInf"
| "js_add NegInf _ = NegInf"
| "js_add _ NegInf = NegInf"

fun js_neg :: "jsnum \<Rightarrow> jsnum" where
  "js_neg NaN = NaN"
| "js_neg NegInf = PosInf"
| "js_neg (Fin x) = Fin (- x)"
| "js_neg PosInf = NegInf"

definition js_sub :: "jsnum \<Rightarrow> jsnum \<Rightarrow> jsnum" where
  "js_sub a b = js_add a (js_neg b)"

fun js_div :: "jsnum \<Rightarrow> jsnum \<Rightarrow> jsnum" where
  "js_div (Fin x) (Fin y) = (if y = 0 then inf_of x else fl (x / y))"
| "js_div NaN _ = NaN"
| "js_div _ NaN = NaN"
| "js_div (Fin x) _ = Fin 0"
| "js_div a (Fin y) = inf_of (sign_of a * (if y < 0 then - 1 else 1))"
| "js_div _ _ = NaN"

text \<open>The remainder \<^verbatim>\<open>%\<close> truncates the quotient towards zero and is exact.\<close>

definition trunc :: "rat \<Rightarrow> int" where
  "trunc q = (if 0 \<le> q then \<lfloor>q\<rfloor> else \<lceil>q\<rceil>)"

fun js_mod :: "jsnum \<Rightarrow> jsnum \<Rightarrow> jsnum" where
  "js_mod (Fin x) (Fin y) = (if y = 0 then NaN else Fin (x - y * of_int (trunc (x / y))))"
| "js_mod (Fin x) PosInf = Fin x"
| "js_mod (Fin x) NegInf = Fin x"
| "js_mod _ _ = NaN"

text \<open>The comparison \<^verbatim>\<open>a < b\<close>: false as soon as one side is NaN.\<close>

fun js_lt :: "jsnum \<Rightarrow> jsnum \<Rightarrow> bool" where
  "js_lt (Fin x) (Fin y) = (x < y)"
| "js_lt NaN _ = False"
| "js_lt _ NaN = False"
| "js_lt _ NegInf = False"
| "js_lt PosInf _ = False"
| "js_lt _ _ = True"

fun Math_floor :: "jsnum \<Rightarrow> jsnum" where
  "Math_floor (Fin x) = Fin (of_int \<lfloor>x\<rfloor>)"
| "Math_floor a = a"

text \<open>\<^verbatim>\<open>Math.round\<close> rounds to the nearest integer, a tie towards \<open>+\<infinity>\<close>.\<close>

fun Math_round :: "jsnum \<Rightarrow> jsnum" where
  "Math_round (Fin x) = Fin (of_int \<lfloor>x + 1/2\<rfloor>)"
| "Math_round a = a"

fun Math_max :: "jsnum \<Rightarrow> jsnum \<Rightarrow> jsnum" where
  "Math_max (Fin x) (Fin y) = Fin (max x y)"
| "Math_max NaN _ = NaN"
| "Math_max _ NaN = NaN"
| "Math_max PosInf _ = PosInf"
| "Math_max _ PosInf = PosInf"
| "Math_max NegInf a = a"
| "Math_max a NegInf = a"

fun Math_min :: "jsnum \<Rightarrow> jsnum \<Rightarrow> jsnum" where
  "Math_min (Fin x) (Fin y) = Fin (min x y)"
| "Math_min NaN _ = NaN"
| "Math_min _ NaN = NaN"
| "Math_min NegInf _ = NegInf"
| "Math_min _ NegInf = NegInf"
| "Math_min PosInf a = a"
| "Math_min a PosInf = a"

section \<open>Pixel buffers\<close>

text \<open>
  Both buffers are \<^verbatim>\<open>Uint8ClampedArray\<close>s: lists of bytes, four per pixel (R, G, B, A).
  Reading at a number that is not an index of the array gives \<^verbatim>\<open>undefined\<close>, which the
  arithmetic that follows turns into NaN; writing there does nothing. A stored number is
  clamped to \<open>[0, 255]\<close> and rounded, NaN is stored as \<open>0\<close>.
\<close>

type_synonym byte = "8 word"

definition is_index :: "'a list \<Rightarrow> rat \<Rightarrow> bool" where
  "is_index buf q \<longleftrightarrow> q = of_int \<lfloor>q\<rfloor> \<and> 0 \<le> q \<and> \<lfloor>q\<rfloor> < int (length buf)"

fun buf_get :: "byte list \<Rightarrow> jsnum \<Rightarrow> jsnum" where
  "buf_get buf (Fin q) = (if is_index buf q then num (unat (buf ! nat \<lfloor>q\<rfloor>)) else NaN)"
| "buf_get buf _ = NaN"

fun ToUint8Clamp :: "jsnum \<Rightarrow> byte" where
  "ToUint8Clamp (Fin x) = (if x \<le> 0 then 0 else if 255 \<le> x then 255 else word_of_int (rhe x))"
| "ToUint8Clamp PosInf = 255"
| "ToUint8Clamp _ = 0"

fun buf_set :: "byte list \<Rightarrow> jsnum \<Rightarrow> jsnum \<Rightarrow> byte list" where
  "buf_set buf (Fin q) v = (if is_index buf q then buf[nat \<lfloor>q\<rfloor> := ToUint8Clamp v] else buf)"
| "buf_set buf _ v = buf"

section \<open>Loops\<close>

text \<open>
  \<^verbatim>\<open>for (let i = i0; cond(i); i++) body\<close>, the state threaded through the body. The
  counter is a number like any other; a loop whose condition never fails has no result.
\<close>

partial_function (option) for_loop ::
  "(jsnum \<Rightarrow> bool) \<Rightarrow> (jsnum \<Rightarrow> 's \<Rightarrow> 's option) \<Rightarrow> jsnum \<Rightarrow> 's \<Rightarrow> 's option" where
  "for_loop cond body i s =
     (if cond i
      then Option.bind (body i s) (\<lambda>s'. for_loop cond body (js_add i (num 1)) s')
      else Some s)"

declare for_loop.simps [code]

section \<open>The transform of \<^verbatim>\<open>hexaimage.js\<close>\<close>

subsection \<open>\<^verbatim>\<open>calculateHexagonalPixel\<close>: the coordinate mapper\<close>

text \<open>
  \<^verbatim>\<open>scaleX = originalWidth / hexWidth\<close>, \<^verbatim>\<open>scaleY = originalHeight / hexHeight\<close>,
  \<^verbatim>\<open>hexOffset = (hexY % 2) * 0.5\<close>. \<open>staggeredX\<close> is the argument of \<^verbatim>\<open>Math.round\<close> in
  \<^verbatim>\<open>centerX = Math.round((hexX + hexOffset) * scaleX)\<close>.
\<close>

definition scale :: "jsnum \<Rightarrow> jsnum \<Rightarrow> jsnum" where
  "scale original hex = js_div original hex"

definition hexOffset :: "jsnum \<Rightarrow> jsnum" where
  "hexOffset hexY = js_mul (js_mod hexY (num 2)) (Fin (1/2))"

definition staggeredX :: "jsnum \<Rightarrow> jsnum \<Rightarrow> jsnum \<Rightarrow> jsnum \<Rightarrow> jsnum" where
  "staggeredX originalWidth hexX hexY hexWidth =
     js_mul (js_add hexX (hexOffset hexY)) (scale originalWidth hexWidth)"

definition centerX :: "jsnum \<Rightarrow> jsnum \<Rightarrow> jsnum \<Rightarrow> jsnum \<Rightarrow> jsnum" where
  "centerX originalWidth hexX hexY hexWidth =
     Math_round (staggeredX originalWidth hexX hexY hexWidth)"

definition centerY :: "jsnum \<Rightarrow> jsnum \<Rightarrow> jsnum \<Rightarrow> jsnum" where
  "centerY originalHeight hexY hexHeight =
     Math_round (js_mul hexY (scale originalHeight hexHeight))"

subsection \<open>\<^verbatim>\<open>calculateHexagonalPixel\<close>: the weighted sampler\<close>

definition centerWeight :: jsnum where
  "centerWeight = Fin (1/2)"

definition outerWeight :: jsnum where
  "outerWeight = js_div (Fin (1/2)) (num 8)"

text \<open>
  \<^verbatim>\<open>sampleX = Math.max(0, Math.min(originalWidth - 1, centerX + dx))\<close> and the same for
  \<^verbatim>\<open>sampleY\<close>; \<^verbatim>\<open>pixelIndex = (sampleY * originalWidth + sampleX) * 4\<close>.
\<close>

definition sample :: "jsnum \<Rightarrow> jsnum \<Rightarrow> int \<Rightarrow> jsnum" where
  "sample original center d =
     Math_max (num 0) (Math_min (js_sub original (num 1)) (js_add center (Fin (of_int d))))"

definition pixelIndex :: "jsnum \<Rightarrow> jsnum \<Rightarrow> jsnum \<Rightarrow> jsnum \<Rightarrow> int \<Rightarrow> int \<Rightarrow> jsnum" where
  "pixelIndex originalWidth originalHeight cx cy dx dy =
     js_mul (js_add (js_mul (sample originalHeight cy dy) originalWidth)
                    (sample originalWidth cx dx)) (num 4)"

definition weight :: "int \<Rightarrow> int \<Rightarrow> jsnum" where
  "weight dx dy = (if dx = 0 \<and> dy = 0 then centerWeight else outerWeight)"

text \<open>The running sums \<^verbatim>\<open>totalR, totalG, totalB, totalWeight\<close>, and the body of the inner loop.\<close>

type_synonym totals = "jsnum \<times> jsnum \<times> jsnum \<times> jsnum"

definition tap ::
  "byte list \<Rightarrow> jsnum \<Rightarrow> jsnum \<Rightarrow> jsnum \<Rightarrow> jsnum \<Rightarrow> int \<Rightarrow> int \<Rightarrow> totals \<Rightarrow> totals" where
  "tap pixels originalWidth originalHeight cx cy dy dx tot =
     (case tot of (totalR, totalG, totalB, totalWeight) \<Rightarrow>
        let i = pixelIndex originalWidth originalHeight cx cy dx dy;
            pr = buf_get pixels i;
            pg = buf_get pixels (js_add i (num 1));
            pb = buf_get pixels (js_add i (num 2));
            w = weight dx dy
        in (js_add totalR (js_mul pr w),
            js_add totalG (js_mul pg w),
            js_add totalB (js_mul pb w),
            js_add totalWeight w))"

text \<open>The two loops over \<^verbatim>\<open>dy\<close> and \<^verbatim>\<open>dx\<close>, from \<open>-1\<close> to \<open>1\<close>.\<close>

definition window :: "byte list \<Rightarrow> jsnum \<Rightarrow> jsnum \<Rightarrow> jsnum \<Rightarrow> jsnum \<Rightarrow> totals" where
  "window pixels originalWidth originalHeight cx cy =
     fold (\<lambda>dy. fold (tap pixels originalWidth originalHeight cx cy dy) [- 1, 0, 1])
       [- 1, 0, 1] (num 0, num 0, num 0, num 0)"

text \<open>
  \<^verbatim>\<open>if (totalWeight > 0) totalR = Math.round(totalR / totalWeight)\<close>, then
  \<^verbatim>\<open>Math.max(0, Math.min(255, totalR))\<close>.
\<close>

definition normalize :: "jsnum \<Rightarrow> jsnum \<Rightarrow> jsnum" where
  "normalize tot totalWeight =
     (if js_lt (num 0) totalWeight then Math_round (js_div tot totalWeight) else tot)"

definition clamp255 :: "jsnum \<Rightarrow> jsnum" where
  "clamp255 tot = Math_max (num 0) (Math_min (num 255) tot)"

record hexColor =
  col_r :: jsnum
  col_g :: jsnum
  col_b :: jsnum

definition sampler :: "byte list \<Rightarrow> jsnum \<Rightarrow> jsnum \<Rightarrow> jsnum \<Rightarrow> jsnum \<Rightarrow> hexColor" where
  "sampler pixels originalWidth originalHeight cx cy =
     (case window pixels originalWidth originalHeight cx cy of
        (totalR, totalG, totalB, totalWeight) \<Rightarrow>
          \<lparr>col_r = clamp255 (normalize totalR totalWeight),
           col_g = clamp255 (normalize totalG totalWeight),
           col_b = clamp255 (normalize totalB totalWeight)\<rparr>)"

definition calculateHexagonalPixel ::
  "byte list \<Rightarrow> jsnum \<Rightarrow> jsnum \<Rightarrow> jsnum \<Rightarrow> jsnum \<Rightarrow> jsnum \<Rightarrow> jsnum \<Rightarrow> hexColor" where
  "calculateHexagonalPixel pixels originalWidth originalHeight hexX hexY hexWidth hexHeight =
     sampler pixels originalWidth originalHeight
       (centerX originalWidth hexX hexY hexWidth) (centerY originalHeight hexY hexHeight)"

subsection \<open>\<^verbatim>\<open>convertToHexagonal\<close>\<close>

text \<open>
  \<^verbatim>\<open>hexWidth = Math.floor(originalWidth * 0.85)\<close> and
  \<^verbatim>\<open>hexHeight = Math.floor(originalHeight * 0.9)\<close>; a decimal literal is the binary64
  value nearest to it.
\<close>

definition hexWidth_of :: "jsnum \<Rightarrow> jsnum" where
  "hexWidth_of originalWidth = Math_floor (js_mul originalWidth (fl (85/100)))"

definition hexHeight_of :: "jsnum \<Rightarrow> jsnum" where
  "hexHeight_of originalHeight = Math_floor (js_mul originalHeight (fl (9/10)))"

text \<open>
  Modelled from the spec: \<^verbatim>\<open>createImageData\<close> belongs to the canvas, not to the
  repository. The spec describes the pixel sink as a pre-sized writable buffer of
  \<open>width * height * 4\<close> bytes; a fresh one is filled with zeros. This is the buffer the
  canvas hands out when both sizes are positive; what the call does with a size of zero is
  in \<open>tempCtx_createImageData\<close> below.
\<close>

fun extent :: "jsnum \<Rightarrow> nat" where
  "extent (Fin q) = nat \<lfloor>q\<rfloor>"
| "extent _ = 0"

definition createImageData :: "jsnum \<Rightarrow> jsnum \<Rightarrow> byte list" where
  "createImageData sw sh = replicate (extent sw * extent sh * 4) 0"

text \<open>
  The body of the inner loop: \<^verbatim>\<open>hexIndex = (hexY * hexWidth + hexX) * 4\<close>, then the four
  stores, the last one the constant alpha.
\<close>

definition hexIndex :: "jsnum \<Rightarrow> jsnum \<Rightarrow> jsnum \<Rightarrow> jsnum" where
  "hexIndex hexWidth hexX hexY = js_mul (js_add (js_mul hexY hexWidth) hexX) (num 4)"

definition writePixel ::
  "byte list \<Rightarrow> jsnum \<Rightarrow> jsnum \<Rightarrow> jsnum \<Rightarrow> jsnum \<Rightarrow> jsnum \<Rightarrow> jsnum \<Rightarrow> byte list \<Rightarrow> byte list" where
  "writePixel pixels originalWidth originalHeight hexWidth hexHeight hexY hexX hexPixels =
     (let c = calculateHexagonalPixel pixels originalWidth originalHeight hexX hexY hexWidth hexHeight;
          i = hexIndex hexWidth hexX hexY;
          p0 = buf_set hexPixels i (col_r c);
          p1 = buf_set p0 (js_add i (num 1)) (col_g c);
          p2 = buf_set p1 (js_add i (num 2)) (col_b c)
      in buf_set p2 (js_add i (num 3)) (num 255))"

text \<open>
  The image element gives its width and height as \<^verbatim>\<open>unsigned long\<close>; \<open>pixels\<close> is the
  buffer that \<^verbatim>\<open>getImageData\<close> returned. The result is \<^verbatim>\<open>hexImageData\<close> after the two
  loops. The \<^verbatim>\<open>await\<close> at the end of a row gives control away and touches no variable of
  the transform.
\<close>

record ImageData =
  width :: jsnum
  height :: jsnum
  data :: "byte list"

definition convertToHexagonal :: "32 word \<Rightarrow> 32 word \<Rightarrow> byte list \<Rightarrow> ImageData option" where
  "convertToHexagonal imgWidth imgHeight pixels =
     (let originalWidth = num (unat imgWidth);
          originalHeight = num (unat imgHeight);
          hexWidth = hexWidth_of originalWidth;
          hexHeight = hexHeight_of originalHeight;
          hexPixels = createImageData hexWidth hexHeight
      in map_option (\<lambda>d. \<lparr>width = hexWidth, height = hexHeight, data = d\<rparr>)
           (for_loop (\<lambda>hexY. js_lt hexY hexHeight)
              (\<lambda>hexY. for_loop (\<lambda>hexX. js_lt hexX hexWidth)
                 (\<lambda>hexX buf. Some (writePixel pixels originalWidth originalHeight
                                       hexWidth hexHeight hexY hexX buf))
                 (num 0))
              (num 0) hexPixels))"

subsection \<open>\<^verbatim>\<open>convertToHexagonal\<close> on the canvas\<close>

text \<open>
  Two calls of \<^verbatim>\<open>convertToHexagonal\<close> go to the 2D context of the temporary canvas and can
  throw: \<^verbatim>\<open>tempCtx.getImageData(0, 0, originalWidth, originalHeight)\<close> and
  \<^verbatim>\<open>tempCtx.createImageData(hexWidth, hexHeight)\<close>. Both methods belong to the browser, and
  are modelled from the HTML standard, which defines them: each throws the DOM exception
  \<^verbatim>\<open>IndexSizeError\<close> when one of its two sizes is zero. Otherwise \<^verbatim>\<open>getImageData\<close> returns
  the bitmap of the canvas, which has the size of the image and has the image drawn at its
  origin, and \<^verbatim>\<open>createImageData\<close> returns the zeroed buffer. Sizes beyond what a browser
  can allocate are not modelled.
\<close>

datatype DOMException = IndexSizeError

definition tempCtx_getImageData :: "byte list \<Rightarrow> jsnum \<Rightarrow> jsnum \<Rightarrow> DOMException + byte list" where
  "tempCtx_getImageData bitmap sw sh =
     (if extent sw = 0 \<or> extent sh = 0 then Inl IndexSizeError else Inr bitmap)"

definition tempCtx_createImageData :: "jsnum \<Rightarrow> jsnum \<Rightarrow> DOMException + byte list" where
  "tempCtx_createImageData sw sh =
     (if extent sw = 0 \<or> extent sh = 0 then Inl IndexSizeError else Inr (createImageData sw sh))"

text \<open>
  The whole method, from the two reads of the image's size to the end of the two loops.
  It has no \<^verbatim>\<open>try\<close> and no \<^verbatim>\<open>throw\<close> of its own, so an exception of one of the two calls
  ends it there (its caller \<^verbatim>\<open>startProcessing\<close> catches it and shows an alert). When none
  is thrown the rest is \<open>convertToHexagonal\<close> above.
\<close>

definition convertToHexagonal_canvas ::
  "32 word \<Rightarrow> 32 word \<Rightarrow> byte list \<Rightarrow> DOMException + ImageData option" where
  "convertToHexagonal_canvas imgWidth imgHeight bitmap =
     (let originalWidth = num (unat imgWidth);
          originalHeight = num (unat imgHeight)
      in case tempCtx_getImageData bitmap originalWidth originalHeight of
           Inl e \<Rightarrow> Inl e
         | Inr pixels \<Rightarrow>
             (let hexWidth = hexWidth_of originalWidth;
                  hexHeight = hexHeight_of originalHeight
              in case tempCtx_createImageData hexWidth hexHeight of
                   Inl e \<Rightarrow> Inl e
                 | Inr hexPixels \<Rightarrow>
                     Inr (map_option (\<lambda>d. \<lparr>width = hexWidth, height = hexHeight, data = d\<rparr>)
                            (for_loop (\<lambda>hexY. js_lt hexY hexHeight)
                               (\<lambda>hexY. for_loop (\<lambda>hexX. js_lt hexX hexWidth)
                                  (\<lambda>hexX buf. Some (writePixel pixels originalWidth originalHeight
                                                        hexWidth hexHeight hexY hexX buf))
                                  (num 0))
                               (num 0) hexPixels))))"

section \<open>The transform in closed form\<close>

text \<open>
  What the specification says of a source image, of the nine taps of the sampler and of
  the output buffer, over the integers and the rationals, with no rounding. The theorems
  below compare the code with these descriptions.
\<close>

text \<open>
  A source image is \<open>W \<times> H\<close> pixels of four bytes. The length of a typed array is below
  \<open>2\<^sup>5\<^sup>3\<close>.
\<close>

definition source_image :: "32 word \<Rightarrow> 32 word \<Rightarrow> byte list \<Rightarrow> bool" where
  "source_image imgWidth imgHeight pixels \<longleftrightarrow>
     length pixels = unat imgWidth * unat imgHeight * 4 \<and> length pixels < 2 ^ 53"

definition clampi :: "int \<Rightarrow> int \<Rightarrow> int \<Rightarrow> int" where
  "clampi lo hi v = max lo (min hi v)"

text \<open>\<^verbatim>\<open>Math.round\<close> as the specification words it: ties away from zero.\<close>

definition round_half_away :: "rat \<Rightarrow> int" where
  "round_half_away x = (if 0 \<le> x then \<lfloor>x + 1/2\<rfloor> else \<lceil>x - 1/2\<rceil>)"

text \<open>The nine offsets \<open>(dy, dx)\<close> in the order of the two loops.\<close>

definition taps :: "(int \<times> int) list" where
  "taps = concat (map (\<lambda>dy. map (\<lambda>dx. (dy, dx)) [- 1, 0, 1]) [- 1, 0, 1])"

text \<open>The buffer index of the clamped tap, and its weight: \<open>0.5\<close> at the center, \<open>0.0625\<close> around.\<close>

definition tapIndex :: "nat \<Rightarrow> nat \<Rightarrow> int \<Rightarrow> int \<Rightarrow> int \<Rightarrow> int \<Rightarrow> nat" where
  "tapIndex W H cx cy dx dy =
     4 * (nat (clampi 0 (int H - 1) (cy + dy)) * W + nat (clampi 0 (int W - 1) (cx + dx)))"

definition tapWeight :: "int \<Rightarrow> int \<Rightarrow> rat" where
  "tapWeight dx dy = (if dx = 0 \<and> dy = 0 then 1/2 else 1/16)"

definition weightedSum :: "byte list \<Rightarrow> nat \<Rightarrow> nat \<Rightarrow> int \<Rightarrow> int \<Rightarrow> nat \<Rightarrow> rat" where
  "weightedSum pixels W H cx cy c =
     (\<Sum>(dy, dx)\<leftarrow>taps. tapWeight dx dy * of_nat (unat (pixels ! (tapIndex W H cx cy dx dy + c))))"

definition tapWeightSum :: rat where
  "tapWeightSum = (\<Sum>(dy, dx)\<leftarrow>taps. tapWeight dx dy)"

text \<open>
  The specification's sampler: normalize by the total weight, round once, clamp to
  \<open>[0, 255]\<close>.
\<close>

definition sampledChannel :: "byte list \<Rightarrow> nat \<Rightarrow> nat \<Rightarrow> int \<Rightarrow> int \<Rightarrow> nat \<Rightarrow> int" where
  "sampledChannel pixels W H cx cy c =
     clampi 0 255 (round_half_away (weightedSum pixels W H cx cy c / tapWeightSum))"

text \<open>
  The specification's mapper, each quotient and product a binary64 value:
  \<open>round((hexX + (hexY mod 2) * 0.5) * (W / Wh))\<close> and \<open>round(hexY * (H / Hh))\<close>.
\<close>

definition mapX :: "nat \<Rightarrow> nat \<Rightarrow> nat \<Rightarrow> nat \<Rightarrow> int" where
  "mapX W Wh x y =
     round_half_away (rnd ((of_nat x + of_nat (y mod 2) * (1/2)) * rnd (of_nat W / of_nat Wh)))"

definition mapY :: "nat \<Rightarrow> nat \<Rightarrow> nat \<Rightarrow> int" where
  "mapY H Hh y = round_half_away (rnd (of_nat y * rnd (of_nat H / of_nat Hh)))"

text \<open>The same sums in sixteenths, as natural numbers.\<close>

definition tapUnits :: "int \<Rightarrow> int \<Rightarrow> nat" where
  "tapUnits dx dy = (if dx = 0 \<and> dy = 0 then 8 else 1)"

definition unitSum ::
  "byte list \<Rightarrow> nat \<Rightarrow> nat \<Rightarrow> int \<Rightarrow> int \<Rightarrow> nat \<Rightarrow> (int \<times> int) list \<Rightarrow> nat" where
  "unitSum pixels W H cx cy c ts =
     (\<Sum>(dy, dx)\<leftarrow>ts. tapUnits dx dy * unat (pixels ! (tapIndex W H cx cy dx dy + c)))"

definition unitWeight :: "(int \<times> int) list \<Rightarrow> nat" where
  "unitWeight ts = (\<Sum>(dy, dx)\<leftarrow>ts. tapUnits dx dy)"

text \<open>
  The four bytes of the output pixel \<open>(x, y)\<close>, and the output buffer in row-major order:
  byte \<open>i\<close> belongs to pixel \<open>i div 4\<close>, at column \<open>(i div 4) mod Wh\<close> of row
  \<open>(i div 4) div Wh\<close>.
\<close>

definition hexBytes :: "byte list \<Rightarrow> nat \<Rightarrow> nat \<Rightarrow> nat \<Rightarrow> nat \<Rightarrow> nat \<Rightarrow> nat \<Rightarrow> byte list" where
  "hexBytes pixels W H Wh Hh x y =
     (let c = calculateHexagonalPixel pixels (num W) (num H) (num x) (num y) (num Wh) (num Hh)
      in [ToUint8Clamp (col_r c), ToUint8Clamp (col_g c), ToUint8Clamp (col_b c), 255])"

definition hexBuffer :: "byte list \<Rightarrow> nat \<Rightarrow> nat \<Rightarrow> nat \<Rightarrow> nat \<Rightarrow> byte list" where
  "hexBuffer pixels W H Wh Hh =
     map (\<lambda>i. hexBytes pixels W H Wh Hh ((i div 4) mod Wh) ((i div 4) div Wh) ! (i mod 4))
       [0..<Wh * Hh * 4]"

section \<open>Rounding to binary64\<close>

lemma p2_pos: "(0::rat) < 2 powi e"
  by (simp add: zero_less_power_int)

lemma p2_add: "(2::rat) powi (a + b) = 2 powi a * 2 powi b"
  by (simp add: power_int_add)

lemma p2_diff: "(2::rat) powi (a - b) = 2 powi a / 2 powi b"
  by (simp add: power_int_diff)

lemma p2_mono: "a \<le> b \<Longrightarrow> (2::rat) powi a \<le> 2 powi b"
  by (rule power_int_increasing) simp_all

lemma p2_strict_mono: "a < b \<Longrightarrow> (2::rat) powi a < 2 powi b"
  by (rule power_int_strict_increasing) simp_all

lemma p2_less_iff: "(2::rat) powi a < 2 powi b \<longleftrightarrow> a < b"
proof
  assume l: "(2::rat) powi a < 2 powi b"
  show "a < b"
  proof (rule ccontr)
    assume "\<not> a < b"
    then have "(2::rat) powi b \<le> 2 powi a"
      by (intro p2_mono) simp
    with l show False by simp
  qed
qed (rule p2_strict_mono)

lemma p2_nat: "0 \<le> e \<Longrightarrow> (2::rat) powi e = of_int (2 ^ nat e)"
  by (simp add: power_int_def)

lemma bitlen_p2:
  assumes "0 < p"
  shows "(2::rat) powi (bitlen p - 1) \<le> of_int p" and "of_int p < (2::rat) powi bitlen p"
proof -
  from assms have b1: "1 \<le> bitlen p"
    by (simp add: bitlen_alt_def)
  from bitlen_bounds [OF assms]
  have lo: "2 ^ nat (bitlen p - 1) \<le> p" and hi: "p < 2 ^ nat (bitlen p)"
    by simp_all
  from lo have "(of_int (2 ^ nat (bitlen p - 1)) :: rat) \<le> of_int p"
    by (simp only: of_int_le_iff)
  with b1 show "(2::rat) powi (bitlen p - 1) \<le> of_int p"
    by (simp add: p2_nat)
  from hi have "(of_int p :: rat) < of_int (2 ^ nat (bitlen p))"
    by (simp only: of_int_less_iff)
  with b1 show "of_int p < (2::rat) powi bitlen p"
    by (simp add: p2_nat)
qed

lemma expo_bounds:
  assumes "0 < x"
  shows "2 powi expo x \<le> x" and "x < 2 powi (expo x + 1)"
proof -
  obtain p q where pq: "quotient_of x = (p, q)"
    by (cases "quotient_of x")
  then have q: "0 < q" and x: "x = of_int p / of_int q"
    by (auto simp: quotient_of_denom_pos quotient_of_div)
  with assms have p: "0 < p"
    by (simp add: zero_less_divide_iff)
  define d where "d = bitlen p - bitlen q"
  have e: "expo x = (if 2 powi d \<le> x then d else d - 1)"
    by (simp add: expo_def pq d_def Let_def)
  have qpos: "(0::rat) < of_int q" using q by simp
  have "x < 2 powi bitlen p / 2 powi (bitlen q - 1)"
    unfolding x using bitlen_p2 [OF p] bitlen_p2 [OF q] p
    by (intro frac_less) (simp_all add: p2_pos)
  then have up: "x < 2 powi (d + 1)"
    by (simp add: d_def flip: p2_diff) (simp add: algebra_simps)
  have "2 powi (bitlen p - 1) / 2 powi bitlen q < x"
    unfolding x using bitlen_p2 [OF p] bitlen_p2 [OF q] qpos
    by (intro frac_less2) (simp_all add: p2_pos less_imp_le)
  then have lo: "2 powi (d - 1) < x"
    by (simp add: d_def flip: p2_diff) (simp add: algebra_simps)
  show "2 powi expo x \<le> x"
    using lo by (simp add: e less_imp_le)
  show "x < 2 powi (expo x + 1)"
    using up by (simp add: e not_le)
qed

lemma rhe_near:
  assumes "\<bar>y - of_int M\<bar> < 1/2"
  shows "rhe y = M"
proof (cases "of_int M \<le> y")
  case True
  with assms have "\<lfloor>y\<rfloor> = M"
    by (intro floor_unique) (simp_all add: abs_less_iff)
  with assms True show ?thesis
    by (simp add: rhe_def Let_def abs_less_iff)
next
  case False
  with assms have "\<lfloor>y\<rfloor> = M - 1"
    by (intro floor_unique) (simp_all add: abs_less_iff)
  with assms False show ?thesis
    by (simp add: rhe_def Let_def abs_less_iff)
qed

lemma rhe_of_int: "rhe (of_int m) = m"
  by (rule rhe_near) simp

lemma rhe_err: "\<bar>of_int (rhe y) - y\<bar> \<le> 1/2"
proof -
  have "of_int \<lfloor>y\<rfloor> \<le> y" "y < of_int \<lfloor>y\<rfloor> + 1"
    by linarith+
  then show ?thesis
    by (auto simp: rhe_def Let_def abs_le_iff)
qed

lemma fl_Fin: "\<bar>rnd x\<bar> < 2 ^ 1024 \<Longrightarrow> fl x = Fin (rnd x)"
  by (auto simp: fl_def Let_def)

lemma rnd_exact:
  assumes x: "x = of_int m * 2 powi k" and m: "\<bar>m\<bar> < 2 ^ 53" and k: "- 1074 \<le> k"
  shows "rnd x = x"
proof (cases "x = 0")
  case True
  then show ?thesis by (simp add: rnd_def)
next
  case False
  define e where "e = max (expo \<bar>x\<bar> - 52) (- 1074)"
  from False have ax: "0 < \<bar>x\<bar>" by simp
  have "\<bar>x\<bar> = of_int \<bar>m\<bar> * 2 powi k"
    by (simp add: x abs_mult p2_pos less_imp_le)
  also have "\<dots> < 2 ^ 53 * 2 powi k"
  proof -
    from m have "(of_int \<bar>m\<bar> :: rat) < of_int (2 ^ 53)"
      by (simp only: of_int_less_iff)
    then show ?thesis
      by (intro mult_strict_right_mono) (simp_all add: p2_pos)
  qed
  also have "\<dots> = 2 powi (53 + k)"
    by (simp add: p2_add)
  finally have "2 powi expo \<bar>x\<bar> < (2::rat) powi (53 + k)"
    using expo_bounds(1) [OF ax] by simp
  then have "expo \<bar>x\<bar> < 53 + k"
    by (simp add: p2_less_iff)
  with k have ek: "e \<le> k"
    by (simp add: e_def)
  have "x / 2 powi e = of_int m * 2 powi (k - e)"
    by (simp add: x p2_diff)
  also have "\<dots> = of_int (m * 2 ^ nat (k - e))"
    using ek by (simp add: p2_nat)
  finally have "rhe (x / 2 powi e) = m * 2 ^ nat (k - e)"
    by (simp only: rhe_of_int)
  then have "of_int (rhe (x / 2 powi e)) * 2 powi e = of_int m * ((2::rat) powi (k - e) * 2 powi e)"
    using ek by (simp add: p2_nat)
  also have "\<dots> = x"
    by (simp add: x flip: p2_add)
  finally show ?thesis
    using False by (simp add: rnd_def e_def Let_def)
qed

lemma rnd_abs_err:
  assumes "x \<noteq> 0"
  shows "\<bar>rnd x - x\<bar> \<le> 2 powi (max (expo \<bar>x\<bar> - 52) (- 1074)) / 2"
proof -
  define e where "e = max (expo \<bar>x\<bar> - 52) (- 1074)"
  have r: "rnd x = of_int (rhe (x / 2 powi e)) * 2 powi e"
    using assms by (simp add: rnd_def e_def Let_def)
  have "rnd x - x = (of_int (rhe (x / 2 powi e)) - x / 2 powi e) * 2 powi e"
    by (simp add: r algebra_simps)
  then have "\<bar>rnd x - x\<bar> = \<bar>of_int (rhe (x / 2 powi e)) - x / 2 powi e\<bar> * 2 powi e"
    by (simp add: abs_mult p2_pos less_imp_le)
  also have "\<dots> \<le> 1/2 * 2 powi e"
    by (intro mult_right_mono rhe_err) (simp add: p2_pos less_imp_le)
  finally show ?thesis
    by (simp add: e_def)
qed

lemma rnd_rel_err:
  assumes "2 powi (- 1022) \<le> \<bar>x\<bar>"
  shows "\<bar>rnd x - x\<bar> \<le> \<bar>x\<bar> / 2 ^ 53"
proof -
  have ax: "0 < \<bar>x\<bar>"
    using assms p2_pos [of "- 1022"] by linarith
  then have nz: "x \<noteq> 0" by auto
  have "(2::rat) powi (- 1022) < 2 powi (expo \<bar>x\<bar> + 1)"
    using assms expo_bounds(2) [OF ax] by linarith
  then have "- 1022 < expo \<bar>x\<bar> + 1"
    by (simp only: p2_less_iff)
  then have "max (expo \<bar>x\<bar> - 52) (- 1074) = expo \<bar>x\<bar> - 52"
    by simp
  with rnd_abs_err [OF nz] have "\<bar>rnd x - x\<bar> \<le> 2 powi (expo \<bar>x\<bar> - 52) / 2"
    by simp
  also have "\<dots> = 2 powi expo \<bar>x\<bar> / 2 ^ 53"
    by (simp add: p2_diff)
  also have "\<dots> \<le> \<bar>x\<bar> / 2 ^ 53"
    using expo_bounds(1) [OF ax] by (simp add: divide_right_mono)
  finally show ?thesis .
qed

lemma rnd_near_int:
  assumes x1: "2 powi (- 1022) \<le> x" and x53: "x < 2 ^ 53"
    and near: "\<bar>x - of_int n\<bar> \<le> x / 2 ^ 54"
  shows "rnd x = of_int n"
proof -
  have xp: "0 < x"
    using x1 p2_pos [of "- 1022"] by linarith
  then have ax: "\<bar>x\<bar> = x" and nz: "x \<noteq> 0" by simp_all
  define e where "e = expo x - 52"
  have "(2::rat) powi (- 1022) < 2 powi (expo x + 1)"
    using x1 expo_bounds(2) [OF xp] by linarith
  then have "- 1022 < expo x + 1"
    by (simp only: p2_less_iff)
  then have em: "max (expo \<bar>x\<bar> - 52) (- 1074) = e"
    by (simp add: ax e_def)
  have "(2::rat) powi expo x < 2 powi 53"
    using x53 expo_bounds(1) [OF xp] by simp
  then have e53: "expo x < 53"
    by (simp only: p2_less_iff)
  then have ele: "e \<le> 0"
    by (simp add: e_def)
  define M where "M = n * 2 ^ nat (- e)"
  have M: "of_int M = of_int n / (2::rat) powi e"
    using ele by (simp add: M_def power_int_def field_simps)
  have "x / 2 powi e - of_int M = (x - of_int n) / 2 powi e"
    by (simp add: M diff_divide_distrib)
  then have "\<bar>x / 2 powi e - of_int M\<bar> = \<bar>x - of_int n\<bar> / 2 powi e"
    by (simp add: p2_pos less_imp_le)
  also have "\<dots> \<le> (x / 2 ^ 54) / 2 powi e"
    using near by (intro divide_right_mono) (simp_all add: p2_pos less_imp_le)
  also have "\<dots> < (2 powi (expo x + 1) / 2 ^ 54) / 2 powi e"
    using expo_bounds(2) [OF xp]
    by (intro divide_strict_right_mono) (simp_all add: p2_pos)
  also have "\<dots> = 1 / 2"
    by (simp add: e_def p2_diff p2_add)
  finally have "rhe (x / 2 powi e) = M"
    by (rule rhe_near)
  then have "rnd x = of_int M * 2 powi e"
    using nz em by (simp add: rnd_def Let_def)
  also have "\<dots> = of_int n"
    by (simp add: M)
  finally show ?thesis .
qed

subsection \<open>Exact operations\<close>

lemma fl_exact:
  assumes "x = of_int m * 2 powi k" and "\<bar>m\<bar> < 2 ^ 53" and "- 1074 \<le> k" and "\<bar>x\<bar> < 2 ^ 1024"
  shows "fl x = Fin x"
  using rnd_exact [OF assms(1-3)] assms(4) by (simp add: fl_Fin)

lemma fl_of_int: "\<bar>m\<bar> < 2 ^ 53 \<Longrightarrow> fl (of_int m) = Fin (of_int m)"
proof (rule fl_exact [where m = m and k = 0])
  assume m: "\<bar>m\<bar> < 2 ^ 53"
  then have "(of_int \<bar>m\<bar> :: rat) < of_int (2 ^ 53)"
    by (simp only: of_int_less_iff)
  then have "\<bar>of_int m :: rat\<bar> < 2 ^ 53"
    by simp
  also have "(2::rat) ^ 53 < 2 ^ 1024"
    by (rule power_strict_increasing) simp_all
  finally show "\<bar>of_int m :: rat\<bar> < 2 ^ 1024" .
qed simp_all

lemma fl_of_nat: "n < 2 ^ 53 \<Longrightarrow> fl (of_nat n) = num n"
  using fl_of_int [of "int n"] by (simp add: num_def)

subsection \<open>The two scale factors\<close>

lemma rnd_85: "rnd (85/100) = 7656119366529843 / 2 ^ 53"
  by code_simp

lemma rnd_9: "rnd (9/10) = 8106479329266893 / 2 ^ 53"
  by code_simp

lemma fl_85: "fl (85/100) = Fin (7656119366529843 / 2 ^ 53)"
  by (simp only: fl_def Let_def rnd_85) simp

lemma fl_9: "fl (9/10) = Fin (8106479329266893 / 2 ^ 53)"
  by (simp only: fl_def Let_def rnd_9) simp

lemma scaled_floor:
  fixes W :: nat and c t :: rat and n :: int
  assumes W: "W < 2 ^ 32"
    and c: "2/5 \<le> c" "c \<le> 1"
    and ct: "\<bar>of_nat W * c - t\<bar> \<le> of_nat W / (5 * 2 ^ 53)"
    and t: "t = of_int n \<or> (of_int n + 1/20 \<le> t \<and> t \<le> of_int n + 19/20)"
  shows "js_mul (num W) (Fin c) = Fin (rnd (of_nat W * c))"
    and "\<lfloor>rnd (of_nat W * c)\<rfloor> = n"
proof -
  define x where "x = of_nat W * c"
  have Wr: "(of_nat W :: rat) < 2 ^ 32"
    using W by (metis of_nat_less_iff of_nat_numeral of_nat_power)
  have x_le: "x \<le> of_nat W"
    using c by (simp add: x_def mult_left_le)
  have x_ge: "of_nat W * (2/5) \<le> x"
    unfolding x_def using c by (intro mult_left_mono) simp_all
  have both: "\<bar>rnd x\<bar> < 2 ^ 1024 \<and> \<lfloor>rnd x\<rfloor> = n"
  proof (cases "W = 0")
    case True
    with ct have "t = 0" by simp
    with t have "n = 0" by auto
    with True show ?thesis by (simp add: x_def rnd_def)
  next
    case False
    then have W1: "(1::rat) \<le> of_nat W" by simp
    have "(2::rat) powi (- 1022) \<le> 2 powi (- 2)"
      by (rule p2_mono) simp
    also have "\<dots> \<le> x"
      using x_ge W1 by (simp add: power_int_minus)
    finally have norm: "2 powi (- 1022) \<le> x" .
    then have xa: "\<bar>x\<bar> = x"
      using p2_pos [of "- 1022"] by linarith
    have "\<bar>rnd x - x\<bar> \<le> x / 2 ^ 53"
      using rnd_rel_err [of x] norm xa by simp
    also have "\<dots> < 2 ^ 32 / 2 ^ 53"
      using x_le Wr by (intro divide_strict_right_mono) simp_all
    finally have err: "\<bar>rnd x - x\<bar> < 1 / 2 ^ 21"
      by simp
    have "of_nat W / (5 * 2 ^ 53) < (2::rat) ^ 32 / (5 * 2 ^ 53)"
      using Wr by (intro divide_strict_right_mono) simp_all
    with ct have "\<bar>x - t\<bar> < 2 ^ 32 / (5 * 2 ^ 53)"
      unfolding x_def by (rule le_less_trans)
    then have xt: "\<bar>x - t\<bar> < 1 / (5 * 2 ^ 21)"
      by simp
    have fin: "\<bar>rnd x\<bar> < 2 ^ 1024"
    proof -
      have "\<bar>rnd x - x\<bar> < 1"
        using err by (rule less_le_trans) simp
      moreover have "0 \<le> x"
        using xa by linarith
      moreover have "x < 2 ^ 32"
        using x_le Wr by (rule le_less_trans)
      ultimately have "\<bar>rnd x\<bar> < 2 ^ 32 + 1"
        by linarith
      also have "\<dots> \<le> (2::rat) ^ 33" by simp
      also have "\<dots> < 2 ^ 1024"
        by (rule power_strict_increasing) simp_all
      finally show ?thesis .
    qed
    from t have "\<lfloor>rnd x\<rfloor> = n"
    proof
      assume tn: "t = of_int n"
      have "\<bar>x - of_int n\<bar> \<le> of_nat W / (5 * 2 ^ 53)"
        using ct by (simp add: x_def tn)
      also have "\<dots> \<le> x / 2 ^ 54"
        using x_ge by (simp add: field_simps)
      finally have "rnd x = of_int n"
        using norm x_le Wr by (intro rnd_near_int) simp_all
      then show ?thesis by simp
    next
      assume a: "of_int n + 1/20 \<le> t \<and> t \<le> of_int n + 19/20"
      have e1: "\<bar>rnd x - x\<bar> < 1/100"
        using err by (rule less_trans) simp
      have e2: "\<bar>x - t\<bar> < 1/100"
        using xt by (rule less_trans) simp
      from a have lo: "of_int n + 1/20 \<le> t" and hi: "t \<le> of_int n + 19/20"
        by simp_all
      from e1 e2 lo hi have "of_int n \<le> rnd x" "rnd x < of_int n + 1"
        by linarith+
      then show ?thesis
        by (intro floor_unique) simp_all
    qed
    with fin show ?thesis by simp
  qed
  then show "js_mul (num W) (Fin c) = Fin (rnd (of_nat W * c))"
    by (simp add: num_def fl_Fin x_def)
  from both show "\<lfloor>rnd (of_nat W * c)\<rfloor> = n"
    by (simp add: x_def)
qed

lemma hexWidth_of_num:
  assumes W: "W < 2 ^ 32"
  shows "hexWidth_of (num W) = num (17 * W div 20)"
proof -
  define c :: rat where "c = 7656119366529843 / 2 ^ 53"
  define t :: rat where "t = of_nat (17 * W) / 20"
  define n :: int where "n = int (17 * W div 20)"
  define k where "k = 17 * W mod 20"
  have "17 * W = 20 * (17 * W div 20) + k"
    unfolding k_def by (simp only: mult_div_mod_eq)
  then have "(of_nat (17 * W) :: rat) = of_nat (20 * (17 * W div 20) + k)"
    by (simp only:)
  then have tn: "t = of_int n + of_nat k / 20"
    by (simp add: t_def n_def)
  have "k < 20"
    unfolding k_def by simp
  then have "k = 0 \<or> (1 \<le> k \<and> k \<le> 19)"
    by linarith
  then have t: "t = of_int n \<or> (of_int n + 1/20 \<le> t \<and> t \<le> of_int n + 19/20)"
  proof
    assume "k = 0"
    then show ?thesis by (simp add: tn)
  next
    assume "1 \<le> k \<and> k \<le> 19"
    then have "(1::rat) \<le> of_nat k" "(of_nat k :: rat) \<le> 19"
      by simp_all
    then show ?thesis by (simp add: tn)
  qed
  have "of_nat W * c - t = - (of_nat W / (5 * 2 ^ 53))"
    by (simp add: c_def t_def field_simps)
  then have ct: "\<bar>of_nat W * c - t\<bar> \<le> of_nat W / (5 * 2 ^ 53)"
    by simp
  have c: "2/5 \<le> c" "c \<le> 1"
    by (simp_all add: c_def)
  from scaled_floor [OF W c ct t]
  have "js_mul (num W) (Fin c) = Fin (rnd (of_nat W * c))" and "\<lfloor>rnd (of_nat W * c)\<rfloor> = n"
    by simp_all
  then have "Math_floor (js_mul (num W) (Fin c)) = num (17 * W div 20)"
    by (simp add: n_def num_def)
  then show ?thesis
    unfolding hexWidth_of_def fl_85 c_def .
qed

lemma hexHeight_of_num:
  assumes H: "H < 2 ^ 32"
  shows "hexHeight_of (num H) = num (9 * H div 10)"
proof -
  define c :: rat where "c = 8106479329266893 / 2 ^ 53"
  define t :: rat where "t = of_nat (9 * H) / 10"
  define n :: int where "n = int (9 * H div 10)"
  define k where "k = 9 * H mod 10"
  have "9 * H = 10 * (9 * H div 10) + k"
    unfolding k_def by (simp only: mult_div_mod_eq)
  then have "(of_nat (9 * H) :: rat) = of_nat (10 * (9 * H div 10) + k)"
    by (simp only:)
  then have tn: "t = of_int n + of_nat k / 10"
    by (simp add: t_def n_def)
  have "k < 10"
    unfolding k_def by simp
  then have "k = 0 \<or> (1 \<le> k \<and> k \<le> 9)"
    by linarith
  then have t: "t = of_int n \<or> (of_int n + 1/20 \<le> t \<and> t \<le> of_int n + 19/20)"
  proof
    assume "k = 0"
    then show ?thesis by (simp add: tn)
  next
    assume "1 \<le> k \<and> k \<le> 9"
    then have "(1::rat) \<le> of_nat k" "(of_nat k :: rat) \<le> 9"
      by simp_all
    then show ?thesis by (simp add: tn)
  qed
  have "of_nat H * c - t = of_nat H / (5 * 2 ^ 53)"
    by (simp add: c_def t_def field_simps)
  then have ct: "\<bar>of_nat H * c - t\<bar> \<le> of_nat H / (5 * 2 ^ 53)"
    by simp
  have c: "2/5 \<le> c" "c \<le> 1"
    by (simp_all add: c_def)
  from scaled_floor [OF H c ct t]
  have "js_mul (num H) (Fin c) = Fin (rnd (of_nat H * c))" and "\<lfloor>rnd (of_nat H * c)\<rfloor> = n"
    by simp_all
  then have "Math_floor (js_mul (num H) (Fin c)) = num (9 * H div 10)"
    by (simp add: n_def num_def)
  then show ?thesis
    unfolding hexHeight_of_def fl_9 c_def .
qed

text \<open>The exact floors, as integer divisions.\<close>

lemma floor_85: "\<lfloor>of_nat W * 85 / 100 :: rat\<rfloor> = int (17 * W div 20)"
proof -
  have "(of_nat W * 85 / 100 :: rat) = of_int (int (17 * W)) / of_int 20"
    by simp
  then have "\<lfloor>of_nat W * 85 / 100 :: rat\<rfloor> = int (17 * W) div 20"
    by (simp only: floor_divide_of_int_eq)
  then show ?thesis
    by (simp add: zdiv_int)
qed

lemma floor_9: "\<lfloor>of_nat H * 9 / 10 :: rat\<rfloor> = int (9 * H div 10)"
proof -
  have "(of_nat H * 9 / 10 :: rat) = of_int (int (9 * H)) / of_int 10"
    by simp
  then have "\<lfloor>of_nat H * 9 / 10 :: rat\<rfloor> = int (9 * H) div 10"
    by (simp only: floor_divide_of_int_eq)
  then show ?thesis
    by (simp add: zdiv_int)
qed

section \<open>The dimension calculator\<close>

text \<open>
  Claim C1. For every width and height that the image element can report (in particular
  every \<open>W \<ge> 1\<close> and \<open>H \<ge> 1\<close>), the two dimensions computed in binary64 are exactly
  \<open>\<lfloor>W * 0.85\<rfloor>\<close> and \<open>\<lfloor>H * 0.9\<rfloor>\<close> of the exact products: the rounding of the two
  literals and of the two products never moves a floor. The calculation is a function of
  the two integers alone.
\<close>

theorem dimension_calculation:
  fixes imgWidth imgHeight :: "32 word"
  shows "hexWidth_of (num (unat imgWidth)) = Fin (of_int \<lfloor>of_nat (unat imgWidth) * 85 / 100 :: rat\<rfloor>)
       \<and> hexHeight_of (num (unat imgHeight)) = Fin (of_int \<lfloor>of_nat (unat imgHeight) * 9 / 10 :: rat\<rfloor>)"
proof -
  have w: "unat imgWidth < 2 ^ 32" and h: "unat imgHeight < 2 ^ 32"
    using unsigned_less [of imgWidth] unsigned_less [of imgHeight] by simp_all
  show ?thesis
    using hexWidth_of_num [OF w] hexHeight_of_num [OF h]
    by (simp only: floor_85 floor_9 num_def of_int_of_nat_eq simp_thms)
qed

section \<open>Integer arithmetic in binary64\<close>

lemma num_add: "a + c < 2 ^ 53 \<Longrightarrow> js_add (num a) (num c) = num (a + c)"
  using fl_of_nat [of "a + c"] by (simp add: num_def)

lemma num_mul: "a * c < 2 ^ 53 \<Longrightarrow> js_mul (num a) (num c) = num (a * c)"
  using fl_of_nat [of "a * c"] by (simp add: num_def)

lemma js_lt_num [simp]: "js_lt (num a) (num c) \<longleftrightarrow> a < c"
  by (simp add: num_def)

lemma num_eq_iff [simp]: "num a = num c \<longleftrightarrow> a = c"
  by (simp add: num_def)

section \<open>Counting loops\<close>

lemma for_loop_upto:
  assumes body: "\<And>j s. j < n \<Longrightarrow> body (num j) s = Some (f j s)"
    and n: "n < 2 ^ 53"
  shows "k \<le> n \<Longrightarrow> for_loop (\<lambda>i. js_lt i (num n)) body (num k) s = Some (fold f [k..<n] s)"
proof (induction "n - k" arbitrary: k s)
  case 0
  then have "k = n" by simp
  then show ?case
    by (subst for_loop.simps) simp
next
  case (Suc d)
  then have kn: "k < n" and d: "d = n - Suc k" and le: "Suc k \<le> n"
    by simp_all
  from kn n have "k + 1 < 2 ^ 53" by simp
  then have next_k: "js_add (num k) (num (Suc 0)) = num (Suc k)"
    using num_add [of k 1] by simp
  have "for_loop (\<lambda>i. js_lt i (num n)) body (num k) s
        = for_loop (\<lambda>i. js_lt i (num n)) body (num (Suc k)) (f k s)"
    by (subst for_loop.simps) (simp add: kn body next_k)
  also have "\<dots> = Some (fold f [Suc k..<n] (f k s))"
    using Suc.hyps(1) [OF d le] .
  also have "fold f [Suc k..<n] (f k s) = fold f [k..<n] s"
    using kn by (simp add: upt_conv_Cons)
  finally show ?case .
qed

lemma convertToHexagonal_folds:
  fixes imgWidth imgHeight :: "32 word"
  defines "W \<equiv> unat imgWidth" and "H \<equiv> unat imgHeight"
  defines "Wh \<equiv> 17 * W div 20" and "Hh \<equiv> 9 * H div 10"
  shows "convertToHexagonal imgWidth imgHeight pixels =
         Some \<lparr>width = num Wh, height = num Hh,
               data = fold (\<lambda>y. fold (\<lambda>x. writePixel pixels (num W) (num H) (num Wh) (num Hh)
                                            (num y) (num x)) [0..<Wh])
                        [0..<Hh] (replicate (Wh * Hh * 4) 0)\<rparr>"
proof -
  have w: "W < 2 ^ 32" and h: "H < 2 ^ 32"
    using unsigned_less [of imgWidth] unsigned_less [of imgHeight] by (simp_all add: W_def H_def)
  then have wh: "Wh < 2 ^ 53" and hh: "Hh < 2 ^ 53"
    by (simp_all add: Wh_def Hh_def)
  have dw: "hexWidth_of (num W) = num Wh" and dh: "hexHeight_of (num H) = num Hh"
    using hexWidth_of_num [OF w] hexHeight_of_num [OF h] by (simp_all add: Wh_def Hh_def)
  have buf: "createImageData (num Wh) (num Hh) = replicate (Wh * Hh * 4) 0"
    by (simp add: createImageData_def num_def)
  have inner: "for_loop (\<lambda>hexX. js_lt hexX (num Wh))
                 (\<lambda>hexX buf. Some (writePixel pixels (num W) (num H) (num Wh) (num Hh) hexY hexX buf))
                 (num 0) s
               = Some (fold (\<lambda>x. writePixel pixels (num W) (num H) (num Wh) (num Hh) hexY (num x))
                         [0..<Wh] s)" for hexY s
    by (rule for_loop_upto [OF _ wh]) simp_all
  have outer: "for_loop (\<lambda>hexY. js_lt hexY (num Hh))
                 (\<lambda>hexY. for_loop (\<lambda>hexX. js_lt hexX (num Wh))
                    (\<lambda>hexX buf. Some (writePixel pixels (num W) (num H) (num Wh) (num Hh) hexY hexX buf))
                    (num 0))
                 (num 0) s
               = Some (fold (\<lambda>y. fold (\<lambda>x. writePixel pixels (num W) (num H) (num Wh) (num Hh)
                                            (num y) (num x)) [0..<Wh])
                         [0..<Hh] s)" for s
    by (rule for_loop_upto [OF _ hh]) (simp_all add: inner)
  show ?thesis
    unfolding convertToHexagonal_def Let_def
    by (simp only: dw dh buf outer W_def [symmetric] H_def [symmetric]) simp
qed

section \<open>The sampler reads inside the buffer\<close>

lemma js_sub_one: "N < 2 ^ 53 \<Longrightarrow> js_sub (num N) (num 1) = Fin (of_int (int N - 1))"
proof -
  assume "N < 2 ^ 53"
  then have "\<bar>int N - 1\<bar> < 2 ^ 53"
    by (cases N) simp_all
  from fl_of_int [OF this] show ?thesis
    by (simp add: js_sub_def num_def)
qed

lemma center_plus:
  assumes "\<bar>c\<bar> < 2 ^ 52" and "d \<in> {- 1, 0, 1}"
  shows "js_add (Fin (of_int c)) (Fin (of_int d)) = Fin (of_int (c + d))"
proof -
  from assms have "\<bar>c + d\<bar> < 2 ^ 53"
    by auto
  from fl_of_int [OF this] show ?thesis
    by simp
qed

lemma sample_num:
  assumes N: "N < 2 ^ 53" and c: "\<bar>c\<bar> < 2 ^ 52" and d: "d \<in> {- 1, 0, 1}"
  shows "sample (num N) (Fin (of_int c)) d = num (nat (clampi 0 (int N - 1) (c + d)))"
proof -
  have "sample (num N) (Fin (of_int c)) d
        = Math_max (Fin (of_int 0)) (Math_min (Fin (of_int (int N - 1))) (Fin (of_int (c + d))))"
    by (simp only: sample_def js_sub_one [OF N] center_plus [OF c d]) (simp add: num_def)
  also have "\<dots> = Fin (of_int (clampi 0 (int N - 1) (c + d)))"
    by (simp only: Math_max.simps Math_min.simps clampi_def of_int_max of_int_min)
  also have "\<dots> = num (nat (clampi 0 (int N - 1) (c + d)))"
    by (simp add: num_def clampi_def)
  finally show ?thesis .
qed

lemma clampi_range: "lo \<le> hi \<Longrightarrow> lo \<le> clampi lo hi v \<and> clampi lo hi v \<le> hi"
  by (simp add: clampi_def)

lemma tapIndex_bound:
  assumes "1 \<le> W" and "1 \<le> H"
  shows "tapIndex W H cx cy dx dy + 3 < W * H * 4"
proof -
  define sx where "sx = nat (clampi 0 (int W - 1) (cx + dx))"
  define sy where "sy = nat (clampi 0 (int H - 1) (cy + dy))"
  have "0 \<le> clampi 0 (int W - 1) (cx + dx) \<and> clampi 0 (int W - 1) (cx + dx) \<le> int W - 1"
    using assms by (intro clampi_range) simp
  moreover
  have "0 \<le> clampi 0 (int H - 1) (cy + dy) \<and> clampi 0 (int H - 1) (cy + dy) \<le> int H - 1"
    using assms by (intro clampi_range) simp
  ultimately have "sx < W" and "Suc sy \<le> H"
    unfolding sx_def sy_def by linarith+
  then have "sy * W + sx < Suc sy * W" and "Suc sy * W \<le> H * W"
    by (simp, intro mult_le_mono1)
  then have "sy * W + sx < W * H"
    by (simp add: mult.commute)
  then show ?thesis
    by (simp add: tapIndex_def sx_def sy_def)
qed

lemma pixelIndex_num:
  assumes W: "1 \<le> W" and H: "1 \<le> H" and len: "W * H * 4 < 2 ^ 53"
    and cx: "\<bar>cx\<bar> < 2 ^ 52" and cy: "\<bar>cy\<bar> < 2 ^ 52"
    and dx: "dx \<in> {- 1, 0, 1}" and dy: "dy \<in> {- 1, 0, 1}"
  shows "pixelIndex (num W) (num H) (Fin (of_int cx)) (Fin (of_int cy)) dx dy
         = num (tapIndex W H cx cy dx dy)"
proof -
  define sx where "sx = nat (clampi 0 (int W - 1) (cx + dx))"
  define sy where "sy = nat (clampi 0 (int H - 1) (cy + dy))"
  have b: "4 * (sy * W + sx) + 3 < W * H * 4"
    using tapIndex_bound [OF W H, of cx cy dx dy] by (simp add: tapIndex_def sx_def sy_def)
  from W H have "W \<le> W * H * 4" and "H \<le> W * H * 4"
    by simp_all
  from this(1) len have W53: "W < 2 ^ 53"
    by (rule le_less_trans)
  from \<open>H \<le> W * H * 4\<close> len have H53: "H < 2 ^ 53"
    by (rule le_less_trans)
  from b len have b53: "4 * (sy * W + sx) + 3 < 2 ^ 53"
    by (rule less_trans)
  have "sy * W \<le> 4 * (sy * W + sx) + 3" and "sy * W + sx \<le> 4 * (sy * W + sx) + 3"
    and "(sy * W + sx) * 4 \<le> 4 * (sy * W + sx) + 3"
    by simp_all
  then have "sy * W < 2 ^ 53" and "sy * W + sx < 2 ^ 53" and "(sy * W + sx) * 4 < 2 ^ 53"
    using b53 by (blast intro: le_less_trans)+
  then have 1: "js_mul (num sy) (num W) = num (sy * W)"
    and 2: "js_add (num (sy * W)) (num sx) = num (sy * W + sx)"
    and 3: "js_mul (num (sy * W + sx)) (num 4) = num ((sy * W + sx) * 4)"
    by (simp_all only: num_mul num_add)
  have "pixelIndex (num W) (num H) (Fin (of_int cx)) (Fin (of_int cy)) dx dy
        = js_mul (js_add (js_mul (num sy) (num W)) (num sx)) (num 4)"
    by (simp only: pixelIndex_def sample_num [OF W53 cx dx] sample_num [OF H53 cy dy] sx_def sy_def)
  also have "\<dots> = num ((sy * W + sx) * 4)"
    by (simp only: 1 2 3)
  also have "(sy * W + sx) * 4 = tapIndex W H cx cy dx dy"
    by (simp add: tapIndex_def sx_def sy_def)
  finally show ?thesis .
qed

lemma buf_get_num: "i < length buf \<Longrightarrow> buf_get buf (num i) = num (unat (buf ! i))"
  by (simp add: num_def is_index_def)

section \<open>The sums of the sampler are exact\<close>

lemma fl_sixteenths:
  assumes "m < 2 ^ 53"
  shows "fl (of_nat m / 16) = Fin (of_nat m / 16)"
proof (rule fl_exact [where m = "int m" and k = "- 4"])
  show "(of_nat m / 16 :: rat) = of_int (int m) * 2 powi (- 4)"
    by (simp add: power_int_minus)
  show "\<bar>int m\<bar> < 2 ^ 53"
    using assms by simp
  have "(of_nat m :: rat) < of_nat (2 ^ 53)"
    using assms by (simp only: of_nat_less_iff)
  then have "\<bar>of_nat m / 16 :: rat\<bar> < 2 ^ 53"
    by simp
  also have "(2::rat) ^ 53 < 2 ^ 1024"
    by (rule power_strict_increasing) simp_all
  finally show "\<bar>of_nat m / 16 :: rat\<bar> < 2 ^ 1024" .
qed simp

lemma weight_units: "weight dx dy = Fin (of_nat (tapUnits dx dy) / 16)"
proof -
  have "fl (1 / 16) = Fin (1 / 16)"
    using fl_sixteenths [of 1] by simp
  then have "outerWeight = Fin (1 / 16)"
    by (simp add: outerWeight_def num_def)
  then show ?thesis
    by (simp add: weight_def tapUnits_def centerWeight_def)
qed

lemma mul_units:
  assumes "u * v < 2 ^ 53"
  shows "js_mul (num v) (Fin (of_nat u / 16)) = Fin (of_nat (u * v) / 16)"
  using fl_sixteenths [OF assms] by (simp add: num_def mult.commute)

lemma add_units:
  assumes "m + n < 2 ^ 53"
  shows "js_add (Fin (of_nat m / 16)) (Fin (of_nat n / 16)) = Fin (of_nat (m + n) / 16)"
  using fl_sixteenths [OF assms] by (simp add: add_divide_distrib)

lemma tapUnits_le: "tapUnits dx dy \<le> 8"
  by (simp add: tapUnits_def)

lemma units_byte_le: "tapUnits dx dy * unat (v :: byte) \<le> 2040"
proof -
  have "unat v < 2 ^ 8"
    using unsigned_less [of v] by simp
  then have "unat v \<le> 255" by simp
  with tapUnits_le [of dx dy] have "tapUnits dx dy * unat v \<le> 8 * 255"
    by (rule mult_le_mono)
  then show ?thesis by simp
qed

lemma tap_exact:
  assumes W: "1 \<le> W" and H: "1 \<le> H"
    and len: "length pixels = W * H * 4" and len53: "W * H * 4 < 2 ^ 53"
    and cx: "\<bar>cx\<bar> < 2 ^ 52" and cy: "\<bar>cy\<bar> < 2 ^ 52"
    and dx: "dx \<in> {- 1, 0, 1}" and dy: "dy \<in> {- 1, 0, 1}"
    and m: "ma + 2040 < 2 ^ 53" "mb + 2040 < 2 ^ 53" "mc + 2040 < 2 ^ 53" "mt + 2040 < 2 ^ 53"
  shows "tap pixels (num W) (num H) (Fin (of_int cx)) (Fin (of_int cy)) dy dx
           (Fin (of_nat ma / 16), Fin (of_nat mb / 16), Fin (of_nat mc / 16), Fin (of_nat mt / 16))
         = (Fin (of_nat (ma + tapUnits dx dy * unat (pixels ! (tapIndex W H cx cy dx dy + 0))) / 16),
            Fin (of_nat (mb + tapUnits dx dy * unat (pixels ! (tapIndex W H cx cy dx dy + 1))) / 16),
            Fin (of_nat (mc + tapUnits dx dy * unat (pixels ! (tapIndex W H cx cy dx dy + 2))) / 16),
            Fin (of_nat (mt + tapUnits dx dy) / 16))"
proof -
  define i where "i = tapIndex W H cx cy dx dy"
  define u where "u = tapUnits dx dy"
  have i3: "i + 3 < W * H * 4"
    unfolding i_def by (rule tapIndex_bound [OF W H])
  from this len53 have "i + 3 < 2 ^ 53"
    by (rule less_trans)
  then have i53: "i + 1 < 2 ^ 53" "i + 2 < 2 ^ 53"
    by simp_all
  have idx: "pixelIndex (num W) (num H) (Fin (of_int cx)) (Fin (of_int cy)) dx dy = num i"
    unfolding i_def by (rule pixelIndex_num [OF W H len53 cx cy dx dy])
  have get: "buf_get pixels (num i) = num (unat (pixels ! (i + 0)))"
    "buf_get pixels (num (i + 1)) = num (unat (pixels ! (i + 1)))"
    "buf_get pixels (num (i + 2)) = num (unat (pixels ! (i + 2)))"
    using i3 len by (simp_all add: buf_get_num)
  have small: "u * unat v \<le> 2040" for v :: byte
    unfolding u_def by (rule units_byte_le)
  have mul: "js_mul (num (unat v)) (Fin (of_nat u / 16)) = Fin (of_nat (u * unat v) / 16)" for v :: byte
    using small [of v] by (intro mul_units) simp
  have add: "n + 2040 < 2 ^ 53 \<Longrightarrow>
      js_add (Fin (of_nat n / 16)) (Fin (of_nat (u * unat v) / 16)) = Fin (of_nat (n + u * unat v) / 16)"
    for n and v :: byte
    using small [of v] by (intro add_units) simp
  have addw: "js_add (Fin (of_nat mt / 16)) (Fin (of_nat u / 16)) = Fin (of_nat (mt + u) / 16)"
    using m(4) tapUnits_le [of dx dy] by (intro add_units) (simp add: u_def)
  show ?thesis
    unfolding tap_def Let_def prod.case idx num_add [OF i53(1)] num_add [OF i53(2)] get
      weight_units i_def [symmetric] u_def [symmetric] mul add [OF m(1)] add [OF m(2)] add [OF m(3)] addw
    by (rule refl)
qed

lemma unitSum_Cons:
  "unitSum pixels W H cx cy c ((dy, dx) # ts)
   = tapUnits dx dy * unat (pixels ! (tapIndex W H cx cy dx dy + c)) + unitSum pixels W H cx cy c ts"
  by (simp add: unitSum_def)

lemma unitWeight_Cons: "unitWeight ((dy, dx) # ts) = tapUnits dx dy + unitWeight ts"
  by (simp add: unitWeight_def)

lemma fold_tap_exact:
  assumes W: "1 \<le> W" and H: "1 \<le> H"
    and len: "length pixels = W * H * 4" and len53: "W * H * 4 < 2 ^ 53"
    and cx: "\<bar>cx\<bar> < 2 ^ 52" and cy: "\<bar>cy\<bar> < 2 ^ 52"
  shows "set ts \<subseteq> {- 1, 0, 1} \<times> {- 1, 0, 1} \<Longrightarrow>
         ma + 2040 * length ts < 2 ^ 53 \<Longrightarrow> mb + 2040 * length ts < 2 ^ 53 \<Longrightarrow>
         mc + 2040 * length ts < 2 ^ 53 \<Longrightarrow> mt + 2040 * length ts < 2 ^ 53 \<Longrightarrow>
         fold (\<lambda>(dy, dx). tap pixels (num W) (num H) (Fin (of_int cx)) (Fin (of_int cy)) dy dx) ts
           (Fin (of_nat ma / 16), Fin (of_nat mb / 16), Fin (of_nat mc / 16), Fin (of_nat mt / 16))
         = (Fin (of_nat (ma + unitSum pixels W H cx cy 0 ts) / 16),
            Fin (of_nat (mb + unitSum pixels W H cx cy 1 ts) / 16),
            Fin (of_nat (mc + unitSum pixels W H cx cy 2 ts) / 16),
            Fin (of_nat (mt + unitWeight ts) / 16))"
proof (induction ts arbitrary: ma mb mc mt)
  case Nil
  then show ?case
    by (simp add: unitSum_def unitWeight_def)
next
  case (Cons t ts)
  obtain dy dx where t: "t = (dy, dx)"
    by (cases t)
  with Cons.prems(1) have dx: "dx \<in> {- 1, 0, 1}" and dy: "dy \<in> {- 1, 0, 1}"
    and ts: "set ts \<subseteq> {- 1, 0, 1} \<times> {- 1, 0, 1}"
    by auto
  define u where "u = tapUnits dx dy"
  define va where "va = u * unat (pixels ! (tapIndex W H cx cy dx dy + 0))"
  define vb where "vb = u * unat (pixels ! (tapIndex W H cx cy dx dy + 1))"
  define vc where "vc = u * unat (pixels ! (tapIndex W H cx cy dx dy + 2))"
  have v: "va \<le> 2040" "vb \<le> 2040" "vc \<le> 2040" "u \<le> 2040"
    using units_byte_le [of dx dy] tapUnits_le [of dx dy] by (simp_all add: va_def vb_def vc_def u_def)
  from Cons.prems(2-5)
  have m: "ma + 2040 < 2 ^ 53" "mb + 2040 < 2 ^ 53" "mc + 2040 < 2 ^ 53" "mt + 2040 < 2 ^ 53"
    by simp_all
  have m': "ma + va + 2040 * length ts < 2 ^ 53" "mb + vb + 2040 * length ts < 2 ^ 53"
    "mc + vc + 2040 * length ts < 2 ^ 53" "mt + u + 2040 * length ts < 2 ^ 53"
    using Cons.prems(2-5) v by simp_all
  have "fold (\<lambda>(dy, dx). tap pixels (num W) (num H) (Fin (of_int cx)) (Fin (of_int cy)) dy dx) (t # ts)
          (Fin (of_nat ma / 16), Fin (of_nat mb / 16), Fin (of_nat mc / 16), Fin (of_nat mt / 16))
        = fold (\<lambda>(dy, dx). tap pixels (num W) (num H) (Fin (of_int cx)) (Fin (of_int cy)) dy dx) ts
          (Fin (of_nat (ma + va) / 16), Fin (of_nat (mb + vb) / 16), Fin (of_nat (mc + vc) / 16),
           Fin (of_nat (mt + u) / 16))"
    by (simp only: fold_simps t prod.case tap_exact [OF W H len len53 cx cy dx dy m]
        va_def vb_def vc_def u_def)
  also have "\<dots> = (Fin (of_nat (ma + va + unitSum pixels W H cx cy 0 ts) / 16),
            Fin (of_nat (mb + vb + unitSum pixels W H cx cy 1 ts) / 16),
            Fin (of_nat (mc + vc + unitSum pixels W H cx cy 2 ts) / 16),
            Fin (of_nat (mt + u + unitWeight ts) / 16))"
    by (rule Cons.IH [OF ts m'])
  finally show ?case
    by (simp only: t unitSum_Cons unitWeight_Cons va_def vb_def vc_def u_def add.assoc)
qed

lemma window_taps:
  "window pixels W H cx cy
   = fold (\<lambda>(dy, dx). tap pixels W H cx cy dy dx) taps (num 0, num 0, num 0, num 0)"
  by (simp add: window_def taps_def)

lemma unitWeight_taps: "unitWeight taps = 16"
  by (simp add: unitWeight_def taps_def tapUnits_def)

lemma set_taps: "set taps \<subseteq> {- 1, 0, 1} \<times> {- 1, 0, 1}"
  by (simp add: taps_def)

lemma length_taps: "length taps = 9"
  by (simp add: taps_def)

lemma sum_units:
  "(\<Sum>(dy, dx)\<leftarrow>ts. tapWeight dx dy * of_nat (f dy dx))
   = (of_nat (\<Sum>(dy, dx)\<leftarrow>ts. tapUnits dx dy * f dy dx) / 16 :: rat)"
proof (induction ts)
  case Nil
  show ?case by simp
next
  case (Cons t ts)
  obtain dy dx where t: "t = (dy, dx)"
    by (cases t)
  have step: "tapWeight dx dy * of_nat (f dy dx) = (of_nat (tapUnits dx dy * f dy dx) / 16 :: rat)"
    by (simp add: tapWeight_def tapUnits_def)
  have "(\<Sum>(dy, dx)\<leftarrow>t # ts. tapWeight dx dy * of_nat (f dy dx))
        = tapWeight dx dy * of_nat (f dy dx) + (\<Sum>(dy, dx)\<leftarrow>ts. tapWeight dx dy * of_nat (f dy dx) :: rat)"
    by (simp add: t)
  also have "\<dots> = of_nat (tapUnits dx dy * f dy dx) / 16
                   + of_nat (\<Sum>(dy, dx)\<leftarrow>ts. tapUnits dx dy * f dy dx) / 16"
    by (simp only: step Cons.IH)
  also have "\<dots> = of_nat (tapUnits dx dy * f dy dx + (\<Sum>(dy, dx)\<leftarrow>ts. tapUnits dx dy * f dy dx)) / 16"
    by (simp only: of_nat_add add_divide_distrib)
  also have "tapUnits dx dy * f dy dx + (\<Sum>(dy, dx)\<leftarrow>ts. tapUnits dx dy * f dy dx)
             = (\<Sum>(dy, dx)\<leftarrow>t # ts. tapUnits dx dy * f dy dx)"
    by (simp add: t)
  finally show ?case .
qed

lemma weightedSum_units:
  "weightedSum pixels W H cx cy c = of_nat (unitSum pixels W H cx cy c taps) / 16"
  unfolding weightedSum_def unitSum_def by (rule sum_units)

lemma tapWeightSum_one: "tapWeightSum = 1"
  by (simp add: tapWeightSum_def taps_def tapWeight_def)

lemma window_exact:
  assumes W: "1 \<le> W" and H: "1 \<le> H"
    and len: "length pixels = W * H * 4" and len53: "W * H * 4 < 2 ^ 53"
    and cx: "\<bar>cx\<bar> < 2 ^ 52" and cy: "\<bar>cy\<bar> < 2 ^ 52"
  shows "window pixels (num W) (num H) (Fin (of_int cx)) (Fin (of_int cy))
         = (Fin (weightedSum pixels W H cx cy 0), Fin (weightedSum pixels W H cx cy 1),
            Fin (weightedSum pixels W H cx cy 2), Fin 1)"
proof -
  have z: "num 0 = Fin (of_nat 0 / 16)"
    by (simp add: num_def)
  have b: "0 + 2040 * length taps < (2::nat) ^ 53"
    by (simp add: length_taps)
  show ?thesis
    unfolding window_taps z
    by (simp only: fold_tap_exact [OF W H len len53 cx cy set_taps b b b b] weightedSum_units
        unitWeight_taps add_0) simp
qed

lemma unitSum_le: "unitSum pixels W H cx cy c ts \<le> 2040 * length ts"
proof (induction ts)
  case Nil
  show ?case by (simp add: unitSum_def)
next
  case (Cons t ts)
  obtain dy dx where t: "t = (dy, dx)"
    by (cases t)
  show ?case
    using Cons units_byte_le [of dx dy "pixels ! (tapIndex W H cx cy dx dy + c)"]
    by (simp add: t unitSum_Cons)
qed

lemma fl_weightedSum: "fl (weightedSum pixels W H cx cy c) = Fin (weightedSum pixels W H cx cy c)"
proof -
  have "unitSum pixels W H cx cy c taps \<le> 2040 * 9"
    using unitSum_le [of pixels W H cx cy c taps] by (simp add: length_taps)
  then have "unitSum pixels W H cx cy c taps < 2 ^ 53"
    by simp
  then show ?thesis
    unfolding weightedSum_units by (rule fl_sixteenths)
qed

lemma weightedSum_nonneg: "0 \<le> weightedSum pixels W H cx cy c"
  by (simp add: weightedSum_units)

lemma normalize_weightedSum:
  "normalize (Fin (weightedSum pixels W H cx cy c)) (Fin 1)
   = Fin (of_int \<lfloor>weightedSum pixels W H cx cy c + 1/2\<rfloor>)"
  by (simp add: normalize_def num_def fl_weightedSum)

lemma clamp255_int: "clamp255 (Fin (of_int z)) = Fin (of_int (clampi 0 255 z))"
proof -
  have "clamp255 (Fin (of_int z)) = Math_max (Fin (of_int 0)) (Math_min (Fin (of_int 255)) (Fin (of_int z)))"
    by (simp add: clamp255_def num_def)
  also have "\<dots> = Fin (of_int (clampi 0 255 z))"
    by (simp only: Math_max.simps Math_min.simps clampi_def of_int_max of_int_min)
  finally show ?thesis .
qed

lemma sampler_exact:
  assumes W: "1 \<le> W" and H: "1 \<le> H"
    and len: "length pixels = W * H * 4" and len53: "W * H * 4 < 2 ^ 53"
    and cx: "\<bar>cx\<bar> < 2 ^ 52" and cy: "\<bar>cy\<bar> < 2 ^ 52"
  shows "sampler pixels (num W) (num H) (Fin (of_int cx)) (Fin (of_int cy))
         = \<lparr>col_r = Fin (of_int (clampi 0 255 \<lfloor>weightedSum pixels W H cx cy 0 + 1/2\<rfloor>)),
            col_g = Fin (of_int (clampi 0 255 \<lfloor>weightedSum pixels W H cx cy 1 + 1/2\<rfloor>)),
            col_b = Fin (of_int (clampi 0 255 \<lfloor>weightedSum pixels W H cx cy 2 + 1/2\<rfloor>))\<rparr>"
  unfolding sampler_def window_exact [OF W H len len53 cx cy] prod.case
    normalize_weightedSum clamp255_int
  by (rule refl)

lemma ToUint8Clamp_int: "ToUint8Clamp (Fin (of_int z)) = word_of_int (clampi 0 255 z)"
proof -
  consider "z \<le> 0" | "255 \<le> z" | "0 < z" "z < 255"
    by linarith
  then show ?thesis
  proof cases
    case 1
    then show ?thesis by (simp add: clampi_def)
  next
    case 2
    then show ?thesis by (simp add: clampi_def)
  next
    case 3
    then show ?thesis by (simp add: clampi_def rhe_of_int)
  qed
qed

section \<open>The coordinate mapper\<close>

lemma rnd_0: "rnd 0 = 0"
  by (simp add: rnd_def)

lemma fl_0: "fl 0 = Fin 0"
  by (simp add: fl_Fin rnd_0)

lemma fl_range:
  assumes lo: "1 / 2 ^ 100 \<le> x" and hi: "x \<le> 2 ^ 100"
  shows "fl x = Fin (rnd x)" and "\<bar>rnd x - x\<bar> \<le> x / 2 ^ 53"
proof -
  have "(2::rat) powi (- 1022) \<le> 2 powi (- 100)"
    by (rule p2_mono) simp
  also have "\<dots> = 1 / 2 ^ 100"
    by (simp add: power_int_minus_divide)
  finally have norm: "2 powi (- 1022) \<le> x"
    using lo by simp
  have xp: "0 < x"
    using lo by (rule less_le_trans [rotated]) simp
  then have ax: "\<bar>x\<bar> = x" by simp
  from rnd_rel_err [of x] norm ax show err: "\<bar>rnd x - x\<bar> \<le> x / 2 ^ 53"
    by simp
  have "x / 2 ^ 53 \<le> x"
    using xp by (simp add: field_simps)
  with err have "\<bar>rnd x\<bar> \<le> 2 * x"
    using xp by linarith
  also have "\<dots> \<le> 2 * 2 ^ 100"
    using hi by simp
  also have "\<dots> < (2::rat) ^ 1024"
  proof -
    have "(2::rat) * 2 ^ 100 = 2 ^ 101" by simp
    also have "\<dots> < 2 ^ 1024"
      by (rule power_strict_increasing) simp_all
    finally show ?thesis .
  qed
  finally show "fl x = Fin (rnd x)"
    by (rule fl_Fin)
qed

lemma mapped_center:
  fixes N Nh :: nat and c :: rat
  assumes N: "N < 2 ^ 32" and Nh: "1 \<le> Nh" "Nh < 2 ^ 32"
    and c: "c < of_nat Nh" and c2: "c = 0 \<or> 1/2 \<le> c"
  shows "js_mul (Fin c) (scale (num N) (num Nh)) = Fin (rnd (c * rnd (of_nat N / of_nat Nh)))"
    and "0 \<le> rnd (c * rnd (of_nat N / of_nat Nh))"
    and "rnd (c * rnd (of_nat N / of_nat Nh)) < 2 ^ 34"
    and "\<bar>rnd (c * rnd (of_nat N / of_nat Nh)) - c * rnd (of_nat N / of_nat Nh)\<bar> \<le> 1 / 2 ^ 20"
proof -
  define q :: rat where "q = of_nat N / of_nat Nh"
  define s where "s = rnd q"
  define a where "a = c * s"
  have Nhr: "(1::rat) \<le> of_nat Nh" "(of_nat Nh :: rat) < 2 ^ 32"
    using Nh by (simp, metis of_nat_less_iff of_nat_numeral of_nat_power)
  have Nr: "(of_nat N :: rat) < 2 ^ 32"
    using N by (metis of_nat_less_iff of_nat_numeral of_nat_power)
  have sc: "scale (num N) (num Nh) = fl q"
    using Nh by (simp add: scale_def num_def q_def)
  have main: "fl q = Fin s \<and> fl a = Fin (rnd a) \<and> 0 \<le> rnd a \<and> rnd a < 2 ^ 34
              \<and> \<bar>rnd a - a\<bar> \<le> 1 / 2 ^ 20"
  proof (cases "N = 0")
    case True
    then have "q = 0" "s = 0" "a = 0"
      by (simp_all add: q_def s_def a_def rnd_0)
    then show ?thesis
      by (simp add: fl_0 rnd_0)
  next
    case False
    then have N1: "(1::rat) \<le> of_nat N" by simp
    have qlo: "1 / 2 ^ 32 \<le> q"
    proof -
      have "(1::rat) / 2 ^ 32 \<le> 1 / of_nat Nh"
        using Nhr by (intro divide_left_mono) simp_all
      also have "\<dots> \<le> of_nat N / of_nat Nh"
        using N1 Nhr by (intro divide_right_mono) simp_all
      finally show ?thesis by (simp add: q_def)
    qed
    have qhi: "q < 2 ^ 32"
    proof -
      have "q \<le> of_nat N / 1"
        unfolding q_def using Nhr by (intro divide_left_mono) simp_all
      with Nr show ?thesis by simp
    qed
    have qp: "0 < q"
      using qlo by (rule less_le_trans [rotated]) simp
    have "1 / 2 ^ 100 \<le> q"
      using qlo by (rule order_trans [rotated]) simp
    moreover have "q \<le> 2 ^ 100"
      using qhi by (rule order_trans [OF less_imp_le]) simp
    ultimately have flq: "fl q = Fin s" and errq: "\<bar>s - q\<bar> \<le> q / 2 ^ 53"
      unfolding s_def by (rule fl_range)+
    have q53: "q / 2 ^ 53 \<le> q / 2"
      using qp by (simp add: field_simps)
    from errq q53 qp have slo: "q / 2 \<le> s" and shi: "s \<le> 2 * q"
      by linarith+
    have sp: "0 < s"
      using slo qp by linarith
    have Nhs: "of_nat Nh * s < 2 ^ 33"
    proof -
      have "of_nat Nh * s \<le> of_nat Nh * (2 * q)"
        using shi by (intro mult_left_mono) simp_all
      also have "\<dots> = 2 * of_nat N"
        using Nhr by (simp add: q_def)
      also have "\<dots> < 2 * 2 ^ 32"
        using Nr by simp
      finally show ?thesis by simp
    qed
    from c2 show ?thesis
    proof
      assume "c = 0"
      then have "a = 0" by (simp add: a_def)
      then show ?thesis
        by (simp add: flq fl_0 rnd_0)
    next
      assume ch: "1/2 \<le> c"
      have alo: "1 / 2 ^ 34 \<le> a"
      proof -
        have "(1::rat) / 2 ^ 34 = (1/2) * ((1 / 2 ^ 32) / 2)" by simp
        also have "\<dots> \<le> (1/2) * (q / 2)"
          using qlo by (intro mult_left_mono divide_right_mono) simp_all
        also have "\<dots> \<le> (1/2) * s"
          using slo by (intro mult_left_mono) simp_all
        also have "\<dots> \<le> c * s"
          using ch sp by (intro mult_right_mono) simp_all
        finally show ?thesis by (simp add: a_def)
      qed
      have ahi: "a < 2 ^ 33"
      proof -
        have "a \<le> of_nat Nh * s"
          unfolding a_def using c sp by (intro mult_right_mono) simp_all
        with Nhs show ?thesis by simp
      qed
      have ap: "0 < a"
        using alo by (rule less_le_trans [rotated]) simp
      have "1 / 2 ^ 100 \<le> a"
        using alo by (rule order_trans [rotated]) simp
      moreover have "a \<le> 2 ^ 100"
        using ahi by (rule order_trans [OF less_imp_le]) simp
      ultimately have fla: "fl a = Fin (rnd a)" and erra: "\<bar>rnd a - a\<bar> \<le> a / 2 ^ 53"
        by (rule fl_range)+
      have "a / 2 ^ 53 < 2 ^ 33 / 2 ^ 53"
        using ahi by (intro divide_strict_right_mono) simp_all
      then have a53: "a / 2 ^ 53 < 1 / 2 ^ 20"
        by simp
      have a53': "a / 2 ^ 53 \<le> a"
        using ap by (simp add: field_simps)
      have small: "(1::rat) / 2 ^ 20 < 1" by simp
      have big: "(2::rat) ^ 33 + 1 \<le> 2 ^ 34" by simp
      from erra a53 have e: "\<bar>rnd a - a\<bar> \<le> 1 / 2 ^ 20"
        by linarith
      from erra a53' ap have nonneg: "0 \<le> rnd a"
        by linarith
      from e small ahi big have "rnd a < 2 ^ 34"
        by linarith
      with flq fla e nonneg show ?thesis by simp
    qed
  qed
  from main show "js_mul (Fin c) (scale (num N) (num Nh)) = Fin (rnd (c * rnd (of_nat N / of_nat Nh)))"
    by (simp add: sc a_def s_def q_def)
  from main show "0 \<le> rnd (c * rnd (of_nat N / of_nat Nh))"
    by (simp add: a_def s_def q_def)
  from main show "rnd (c * rnd (of_nat N / of_nat Nh)) < 2 ^ 34"
    by (simp add: a_def s_def q_def)
  from main show "\<bar>rnd (c * rnd (of_nat N / of_nat Nh)) - c * rnd (of_nat N / of_nat Nh)\<bar> \<le> 1 / 2 ^ 20"
    by (simp add: a_def s_def q_def)
qed

lemma hexOffset_num: "hexOffset (num y) = Fin (of_nat (y mod 2) / 2)"
proof -
  have "\<lfloor>of_nat y / 2 :: rat\<rfloor> = int (y div 2)"
    using floor_divide_of_nat_eq [of y 2, where ?'a = rat] by simp
  then have t: "trunc (of_nat y / 2) = int (y div 2)"
    by (simp add: trunc_def)
  have "(of_nat y :: rat) = of_nat (2 * (y div 2) + y mod 2)"
    by (simp only: mult_div_mod_eq)
  also have "\<dots> = 2 * of_nat (y div 2) + of_nat (y mod 2)"
    by (simp only: of_nat_add of_nat_mult of_nat_numeral)
  finally have "(of_nat y :: rat) - 2 * of_nat (y div 2) = of_nat (y mod 2)"
    by simp
  then have m: "js_mod (num y) (num 2) = Fin (of_nat (y mod 2))"
    by (simp add: num_def t)
  have "fl (of_nat (y mod 2) / 2) = Fin (of_nat (y mod 2) / 2)"
  proof (rule fl_exact [where m = "int (y mod 2)" and k = "- 1"])
    show "(of_nat (y mod 2) / 2 :: rat) = of_int (int (y mod 2)) * 2 powi (- 1)"
      by simp
    have "y mod 2 < 2" by simp
    then have "y mod 2 = 0 \<or> y mod 2 = 1" by linarith
    then show "\<bar>int (y mod 2)\<bar> < 2 ^ 53" and "\<bar>of_nat (y mod 2) / 2 :: rat\<bar> < 2 ^ 1024"
      by auto
  qed simp
  then show ?thesis
    by (simp add: hexOffset_def m)
qed

lemma staggered_arg:
  assumes "x < 2 ^ 32"
  shows "js_add (num x) (Fin (of_nat (y mod 2) / 2)) = Fin (of_nat x + of_nat (y mod 2) / 2)"
proof -
  define m where "m = 2 * x + y mod 2"
  have e: "(of_nat x + of_nat (y mod 2) / 2 :: rat) = of_int (int m) * 2 powi (- 1)"
    by (simp add: m_def add_divide_distrib)
  have "y mod 2 < 2" by simp
  with assms have m33: "m < 2 ^ 34"
    by (simp add: m_def)
  then have m53: "\<bar>int m\<bar> < 2 ^ 53"
    by simp
  have "(of_nat m :: rat) < of_nat (2 ^ 34)"
    using m33 by (simp only: of_nat_less_iff)
  then have "\<bar>of_int (int m) * 2 powi (- 1) :: rat\<bar> < 2 ^ 34"
    by simp
  also have "(2::rat) ^ 34 < 2 ^ 1024"
    by (rule power_strict_increasing) simp_all
  finally have "fl (of_int (int m) * 2 powi (- 1)) = Fin (of_int (int m) * 2 powi (- 1))"
    using m53 by (intro fl_exact [where m = "int m" and k = "- 1"]) simp_all
  then show ?thesis
    by (simp add: num_def e)
qed

lemma staggeredX_num:
  fixes y :: nat
  assumes W: "W < 2 ^ 32" and Wh: "Wh < 2 ^ 32" and x: "x < Wh"
  defines "p \<equiv> rnd ((of_nat x + of_nat (y mod 2) / 2) * rnd (of_nat W / of_nat Wh))"
  shows "staggeredX (num W) (num x) (num y) (num Wh) = Fin p"
    and "0 \<le> p" and "p < 2 ^ 34"
    and "\<bar>p - (of_nat x + of_nat (y mod 2) / 2) * rnd (of_nat W / of_nat Wh)\<bar> \<le> 1 / 2 ^ 20"
proof -
  define c :: rat where "c = of_nat x + of_nat (y mod 2) / 2"
  from x Wh have x32: "x < 2 ^ 32" and Wh1: "1 \<le> Wh"
    by simp_all
  have k: "y mod 2 = 0 \<or> y mod 2 = 1"
    by linarith
  from x have "(of_nat x :: rat) + 1 \<le> of_nat Wh"
    by (metis Suc_eq_plus1 Suc_leI of_nat_1 of_nat_add of_nat_le_iff)
  with k have c_lt: "c < of_nat Wh"
    by (auto simp: c_def)
  have c2: "c = 0 \<or> 1/2 \<le> c"
  proof (cases "x = 0")
    case True
    with k show ?thesis by (auto simp: c_def)
  next
    case False
    then have "(1::rat) \<le> of_nat x" by simp
    then show ?thesis by (simp add: c_def add_nonneg_nonneg order_trans [of "1/2" 1])
  qed
  have st: "staggeredX (num W) (num x) (num y) (num Wh) = js_mul (Fin c) (scale (num W) (num Wh))"
    by (simp only: staggeredX_def hexOffset_num staggered_arg [OF x32] c_def)
  from mapped_center [OF W Wh1 Wh c_lt c2]
  show "staggeredX (num W) (num x) (num y) (num Wh) = Fin p"
    and "0 \<le> p" and "p < 2 ^ 34"
    and "\<bar>p - (of_nat x + of_nat (y mod 2) / 2) * rnd (of_nat W / of_nat Wh)\<bar> \<le> 1 / 2 ^ 20"
    by (simp_all only: st p_def c_def)
qed

lemma centerX_num:
  fixes y :: nat
  assumes W: "W < 2 ^ 32" and Wh: "Wh < 2 ^ 32" and x: "x < Wh"
  defines "p \<equiv> rnd ((of_nat x + of_nat (y mod 2) / 2) * rnd (of_nat W / of_nat Wh))"
  shows "centerX (num W) (num x) (num y) (num Wh) = Fin (of_int \<lfloor>p + 1/2\<rfloor>)"
    and "\<bar>\<lfloor>p + 1/2\<rfloor>\<bar> < 2 ^ 52"
proof -
  note s = staggeredX_num [OF W Wh x, where y = y, folded p_def]
  show "centerX (num W) (num x) (num y) (num Wh) = Fin (of_int \<lfloor>p + 1/2\<rfloor>)"
    by (simp add: centerX_def s(1))
  have "0 \<le> p + 1/2" and "p + 1/2 < 2 ^ 35"
    using s(2,3) by simp_all
  then have "0 \<le> \<lfloor>p + 1/2\<rfloor>" and "\<lfloor>p + 1/2\<rfloor> < 2 ^ 35"
    by (simp_all add: floor_less_iff)
  then show "\<bar>\<lfloor>p + 1/2\<rfloor>\<bar> < 2 ^ 52"
    by simp
qed

lemma centerY_num:
  assumes H: "H < 2 ^ 32" and Hh: "Hh < 2 ^ 32" and y: "y < Hh"
  defines "p \<equiv> rnd (of_nat y * rnd (of_nat H / of_nat Hh))"
  shows "centerY (num H) (num y) (num Hh) = Fin (of_int \<lfloor>p + 1/2\<rfloor>)"
    and "\<bar>\<lfloor>p + 1/2\<rfloor>\<bar> < 2 ^ 52" and "0 \<le> p"
proof -
  from y have Hh1: "1 \<le> Hh" by simp
  have c_lt: "(of_nat y :: rat) < of_nat Hh"
    using y by simp
  have c2: "(of_nat y :: rat) = 0 \<or> 1/2 \<le> (of_nat y :: rat)"
  proof (cases "y = 0")
    case True
    then show ?thesis by simp
  next
    case False
    then have "(1::rat) \<le> of_nat y" by simp
    then have "(1/2::rat) \<le> of_nat y" by (rule order_trans [rotated]) simp
    then show ?thesis by simp
  qed
  note s = mapped_center [OF H Hh1 Hh c_lt c2, folded p_def]
  show "centerY (num H) (num y) (num Hh) = Fin (of_int \<lfloor>p + 1/2\<rfloor>)"
    using s(1) by (simp add: centerY_def num_def)
  show "0 \<le> p" by (rule s(2))
  have "0 \<le> p + 1/2" and "p + 1/2 < 2 ^ 35"
    using s(2,3) by simp_all
  then have "0 \<le> \<lfloor>p + 1/2\<rfloor>" and "\<lfloor>p + 1/2\<rfloor> < 2 ^ 35"
    by (simp_all add: floor_less_iff)
  then show "\<bar>\<lfloor>p + 1/2\<rfloor>\<bar> < 2 ^ 52"
    by simp
qed

section \<open>One output pixel\<close>

lemma round_half_away_nonneg: "0 \<le> x \<Longrightarrow> round_half_away x = \<lfloor>x + 1/2\<rfloor>"
  by (simp add: round_half_away_def)

lemma centerX_mapX:
  assumes "W < 2 ^ 32" and "Wh < 2 ^ 32" and "x < Wh"
  shows "centerX (num W) (num x) (num y) (num Wh) = Fin (of_int (mapX W Wh x y))"
    and "\<bar>mapX W Wh x y\<bar> < 2 ^ 52"
  using centerX_num [OF assms, of y] staggeredX_num(2) [OF assms, of y]
  by (simp_all add: mapX_def round_half_away_nonneg)

lemma centerY_mapY:
  assumes "H < 2 ^ 32" and "Hh < 2 ^ 32" and "y < Hh"
  shows "centerY (num H) (num y) (num Hh) = Fin (of_int (mapY H Hh y))"
    and "\<bar>mapY H Hh y\<bar> < 2 ^ 52"
  using centerY_num [OF assms]
  by (simp_all add: mapY_def round_half_away_nonneg)

lemma sampledChannel_floor:
  "sampledChannel pixels W H cx cy c = clampi 0 255 \<lfloor>weightedSum pixels W H cx cy c + 1/2\<rfloor>"
  by (simp add: sampledChannel_def tapWeightSum_one round_half_away_nonneg weightedSum_nonneg)

lemma calculateHexagonalPixel_exact:
  assumes W1: "1 \<le> W" and H1: "1 \<le> H" and W: "W < 2 ^ 32" and H: "H < 2 ^ 32"
    and len: "length pixels = W * H * 4" and len53: "W * H * 4 < 2 ^ 53"
    and Wh: "Wh < 2 ^ 32" and Hh: "Hh < 2 ^ 32" and x: "x < Wh" and y: "y < Hh"
  shows "calculateHexagonalPixel pixels (num W) (num H) (num x) (num y) (num Wh) (num Hh)
         = \<lparr>col_r = Fin (of_int (sampledChannel pixels W H (mapX W Wh x y) (mapY H Hh y) 0)),
            col_g = Fin (of_int (sampledChannel pixels W H (mapX W Wh x y) (mapY H Hh y) 1)),
            col_b = Fin (of_int (sampledChannel pixels W H (mapX W Wh x y) (mapY H Hh y) 2))\<rparr>"
  unfolding calculateHexagonalPixel_def centerX_mapX(1) [OF W Wh x] centerY_mapY(1) [OF H Hh y]
    sampler_exact [OF W1 H1 len len53 centerX_mapX(2) [OF W Wh x] centerY_mapY(2) [OF H Hh y]]
    sampledChannel_floor
  by (rule refl)

lemma clampi_idem: "clampi 0 255 (clampi 0 255 z) = clampi 0 255 z"
  by (simp add: clampi_def)

lemma ToUint8Clamp_sampled:
  "ToUint8Clamp (Fin (of_int (sampledChannel pixels W H cx cy c)))
   = word_of_int (sampledChannel pixels W H cx cy c)"
  by (simp only: ToUint8Clamp_int sampledChannel_def clampi_idem)

lemma hexBytes_exact:
  assumes W1: "1 \<le> W" and H1: "1 \<le> H" and W: "W < 2 ^ 32" and H: "H < 2 ^ 32"
    and len: "length pixels = W * H * 4" and len53: "W * H * 4 < 2 ^ 53"
    and Wh: "Wh < 2 ^ 32" and Hh: "Hh < 2 ^ 32" and x: "x < Wh" and y: "y < Hh"
  shows "hexBytes pixels W H Wh Hh x y
         = [word_of_int (sampledChannel pixels W H (mapX W Wh x y) (mapY H Hh y) 0),
            word_of_int (sampledChannel pixels W H (mapX W Wh x y) (mapY H Hh y) 1),
            word_of_int (sampledChannel pixels W H (mapX W Wh x y) (mapY H Hh y) 2),
            255]"
  unfolding hexBytes_def calculateHexagonalPixel_exact [OF assms] Let_def
  by (simp del: ToUint8Clamp.simps add: ToUint8Clamp_sampled)

section \<open>The buffer writer\<close>

lemma buf_set_num: "i < length buf \<Longrightarrow> buf_set buf (num i) v = buf[i := ToUint8Clamp v]"
  by (simp add: num_def is_index_def)

lemma pixel_in_range:
  fixes x y Wh Hh :: nat
  assumes "x < Wh" and "y < Hh"
  shows "(y * Wh + x) * 4 + 3 < Wh * Hh * 4"
proof -
  from assms have "y * Wh + x < Suc y * Wh" and "Suc y * Wh \<le> Hh * Wh"
    by (simp, intro mult_le_mono1, simp)
  then have "y * Wh + x < Wh * Hh"
    by (simp add: mult.commute)
  then show ?thesis by simp
qed

lemma hexIndex_num:
  assumes "(y * Wh + x) * 4 < 2 ^ 53"
  shows "hexIndex (num Wh) (num x) (num y) = num ((y * Wh + x) * 4)"
proof -
  have "y * Wh \<le> (y * Wh + x) * 4" and "y * Wh + x \<le> (y * Wh + x) * 4"
    by simp_all
  then have "y * Wh < 2 ^ 53" and "y * Wh + x < 2 ^ 53"
    using assms by (blast intro: le_less_trans)+
  with assms show ?thesis
    by (simp only: hexIndex_def num_mul num_add)
qed

lemma ToUint8Clamp_255: "ToUint8Clamp (num 255) = 255"
  by (simp add: num_def)

lemma writePixel_update:
  assumes x: "x < Wh" and y: "y < Hh" and b53: "Wh * Hh * 4 < 2 ^ 53"
    and len: "length buf = Wh * Hh * 4"
  shows "writePixel pixels (num W) (num H) (num Wh) (num Hh) (num y) (num x) buf
         = buf[(y * Wh + x) * 4 := hexBytes pixels W H Wh Hh x y ! 0,
               (y * Wh + x) * 4 + 1 := hexBytes pixels W H Wh Hh x y ! 1,
               (y * Wh + x) * 4 + 2 := hexBytes pixels W H Wh Hh x y ! 2,
               (y * Wh + x) * 4 + 3 := hexBytes pixels W H Wh Hh x y ! 3]"
proof -
  define i where "i = (y * Wh + x) * 4"
  have i3: "i + 3 < Wh * Hh * 4"
    unfolding i_def by (rule pixel_in_range [OF x y])
  from this b53 have "i + 3 < 2 ^ 53"
    by (rule less_trans)
  then have i53: "i < 2 ^ 53" "i + 1 < 2 ^ 53" "i + 2 < 2 ^ 53" "i + 3 < 2 ^ 53"
    by simp_all
  have idx: "hexIndex (num Wh) (num x) (num y) = num i"
    unfolding i_def using i53(1) [unfolded i_def] by (rule hexIndex_num)
  have inb: "i < length buf" "i + 1 < length buf" "i + 2 < length buf" "i + 3 < length buf"
    using i3 len by simp_all
  have s0: "buf_set b0 (num i) v = b0[i := ToUint8Clamp v]" if "length b0 = length buf" for b0 v
    using inb that by (intro buf_set_num) simp
  have s1: "buf_set b0 (num (i + 1)) v = b0[i + 1 := ToUint8Clamp v]" if "length b0 = length buf" for b0 v
    using inb that by (intro buf_set_num) simp
  have s2: "buf_set b0 (num (i + 2)) v = b0[i + 2 := ToUint8Clamp v]" if "length b0 = length buf" for b0 v
    using inb that by (intro buf_set_num) simp
  have s3: "buf_set b0 (num (i + 3)) v = b0[i + 3 := ToUint8Clamp v]" if "length b0 = length buf" for b0 v
    using inb that by (intro buf_set_num) simp
  define c where
    "c = calculateHexagonalPixel pixels (num W) (num H) (num x) (num y) (num Wh) (num Hh)"
  have hb: "hexBytes pixels W H Wh Hh x y
            = [ToUint8Clamp (col_r c), ToUint8Clamp (col_g c), ToUint8Clamp (col_b c), 255]"
    by (simp only: hexBytes_def Let_def c_def)
  have n: "hexBytes pixels W H Wh Hh x y ! 0 = ToUint8Clamp (col_r c)"
    "hexBytes pixels W H Wh Hh x y ! 1 = ToUint8Clamp (col_g c)"
    "hexBytes pixels W H Wh Hh x y ! 2 = ToUint8Clamp (col_b c)"
    "hexBytes pixels W H Wh Hh x y ! 3 = 255"
    unfolding hb by (simp_all del: ToUint8Clamp.simps)
  have "writePixel pixels (num W) (num H) (num Wh) (num Hh) (num y) (num x) buf
        = buf_set (buf_set (buf_set (buf_set buf (num i) (col_r c)) (num (i + 1)) (col_g c))
                     (num (i + 2)) (col_b c)) (num (i + 3)) (num 255)"
    by (simp only: writePixel_def Let_def idx num_add [OF i53(2)] num_add [OF i53(3)]
        num_add [OF i53(4)] c_def)
  also have "\<dots> = buf[i := ToUint8Clamp (col_r c), i + 1 := ToUint8Clamp (col_g c),
                       i + 2 := ToUint8Clamp (col_b c), i + 3 := 255]"
    by (simp only: s0 s1 s2 s3 length_list_update ToUint8Clamp_255)
  finally show ?thesis
    by (simp only: n i_def)
qed

lemma update4_nth:
  fixes buf :: "'a list"
  assumes i3: "i + 3 < length buf" and j: "j < length buf" and i4: "i mod 4 = 0"
  shows "buf[i := a0, i + 1 := a1, i + 2 := a2, i + 3 := a3] ! j
         = (if j div 4 = i div 4 then [a0, a1, a2, a3] ! (j mod 4) else buf ! j)"
proof -
  define k where "k = i div 4"
  have i: "i = 4 * k"
    using i4 by (simp add: k_def mod_eq_0_iff_dvd)
  have near: "(4 * k + d) div 4 = k" if "d < 4" for d
    using that by simp
  show ?thesis
  proof (cases "j div 4 = k")
    case True
    define d where "d = j mod 4"
    have "4 * (j div 4) + j mod 4 = j"
      by (rule mult_div_mod_eq)
    then have jd: "j = 4 * k + d"
      unfolding True d_def by (rule sym)
    have "d < 4" by (simp add: d_def)
    then consider "d = 0" | "d = 1" | "d = 2" | "d = 3"
      by linarith
    then have "buf[i := a0, i + 1 := a1, i + 2 := a2, i + 3 := a3] ! j = [a0, a1, a2, a3] ! d"
      using i3 by cases (simp_all add: jd i)
    with True show ?thesis
      by (simp add: k_def d_def)
  next
    case False
    have "j \<noteq> 4 * k + d" if "d < 4" for d
      using False near [OF that] by auto
    from this [of 0] this [of 1] this [of 2] this [of 3]
    have "j \<noteq> i" "j \<noteq> i + 1" "j \<noteq> i + 2" "j \<noteq> i + 3"
      by (simp_all add: i)
    with False show ?thesis
      by (simp add: k_def)
  qed
qed

lemma hexBytes_list:
  "[hexBytes pixels W H Wh Hh x y ! 0, hexBytes pixels W H Wh Hh x y ! 1,
    hexBytes pixels W H Wh Hh x y ! 2, hexBytes pixels W H Wh Hh x y ! 3]
   = hexBytes pixels W H Wh Hh x y"
  by (simp add: hexBytes_def Let_def del: ToUint8Clamp.simps)

lemma writePixel_nth:
  assumes x: "x < Wh" and y: "y < Hh" and b53: "Wh * Hh * 4 < 2 ^ 53"
    and len: "length buf = Wh * Hh * 4" and j: "j < length buf"
  shows "writePixel pixels (num W) (num H) (num Wh) (num Hh) (num y) (num x) buf ! j
         = (if j div 4 = y * Wh + x then hexBytes pixels W H Wh Hh x y ! (j mod 4) else buf ! j)"
proof -
  have i3: "(y * Wh + x) * 4 + 3 < length buf"
    using pixel_in_range [OF x y] len by simp
  have i4: "((y * Wh + x) * 4) mod 4 = 0"
    by simp
  have d: "((y * Wh + x) * 4) div 4 = y * Wh + x"
    by simp
  show ?thesis
    unfolding writePixel_update [OF x y b53 len] update4_nth [OF i3 j i4] d hexBytes_list
    by (rule refl)
qed

lemma length_writePixel:
  "length (writePixel pixels W H Wh Hh y x buf) = length buf"
proof -
  have "length (buf_set b0 i v) = length b0" for b0 i v
    by (cases i) simp_all
  then show ?thesis
    by (simp add: writePixel_def Let_def)
qed

lemma coord_eq:
  fixes x y Wh p :: nat
  assumes "x < Wh"
  shows "p = y * Wh + x \<longleftrightarrow> (p div Wh, p mod Wh) = (y, x)"
proof
  assume "p = y * Wh + x"
  with assms show "(p div Wh, p mod Wh) = (y, x)"
    by simp
next
  assume "(p div Wh, p mod Wh) = (y, x)"
  then have "p div Wh = y" and "p mod Wh = x"
    by simp_all
  then show "p = y * Wh + x"
    using div_mult_mod_eq [of p Wh] by simp
qed

lemma fold_writePixel:
  assumes b53: "Wh * Hh * 4 < 2 ^ 53"
  shows "(\<forall>(y, x) \<in> set ps. x < Wh \<and> y < Hh) \<Longrightarrow> length buf = Wh * Hh * 4 \<Longrightarrow>
         length (fold (\<lambda>(y, x). writePixel pixels (num W) (num H) (num Wh) (num Hh) (num y) (num x))
                   ps buf) = Wh * Hh * 4
         \<and> (\<forall>j < Wh * Hh * 4.
               fold (\<lambda>(y, x). writePixel pixels (num W) (num H) (num Wh) (num Hh) (num y) (num x))
                 ps buf ! j
               = (if ((j div 4) div Wh, (j div 4) mod Wh) \<in> set ps
                  then hexBytes pixels W H Wh Hh ((j div 4) mod Wh) ((j div 4) div Wh) ! (j mod 4)
                  else buf ! j))"
proof (induction ps arbitrary: buf)
  case Nil
  then show ?case by simp
next
  case (Cons p ps)
  obtain y x where p: "p = (y, x)"
    by (cases p)
  with Cons.prems(1) have x: "x < Wh" and y: "y < Hh"
    and rest: "\<forall>(y, x) \<in> set ps. x < Wh \<and> y < Hh"
    by auto
  define buf1 where
    "buf1 = writePixel pixels (num W) (num H) (num Wh) (num Hh) (num y) (num x) buf"
  have len1: "length buf1 = Wh * Hh * 4"
    by (simp add: buf1_def length_writePixel Cons.prems(2))
  have step: "fold (\<lambda>(y, x). writePixel pixels (num W) (num H) (num Wh) (num Hh) (num y) (num x))
                (p # ps) buf
              = fold (\<lambda>(y, x). writePixel pixels (num W) (num H) (num Wh) (num Hh) (num y) (num x))
                  ps buf1"
    by (simp add: p buf1_def)
  note IH = Cons.IH [OF rest len1]
  show ?case
  proof (intro conjI allI impI)
    show "length (fold (\<lambda>(y, x). writePixel pixels (num W) (num H) (num Wh) (num Hh) (num y) (num x))
                    (p # ps) buf) = Wh * Hh * 4"
      unfolding step using IH by simp
  next
    fix j assume j: "j < Wh * Hh * 4"
    then have jb: "j < length buf"
      by (simp add: Cons.prems(2))
    have first: "buf1 ! j = (if j div 4 = y * Wh + x
                             then hexBytes pixels W H Wh Hh x y ! (j mod 4) else buf ! j)"
      unfolding buf1_def by (rule writePixel_nth [OF x y b53 Cons.prems(2) jb])
    have here: "j div 4 = y * Wh + x \<longleftrightarrow> ((j div 4) div Wh, (j div 4) mod Wh) = (y, x)"
      by (rule coord_eq [OF x])
    from IH j have "fold (\<lambda>(y, x). writePixel pixels (num W) (num H) (num Wh) (num Hh) (num y) (num x))
                      ps buf1 ! j
                    = (if ((j div 4) div Wh, (j div 4) mod Wh) \<in> set ps
                       then hexBytes pixels W H Wh Hh ((j div 4) mod Wh) ((j div 4) div Wh) ! (j mod 4)
                       else buf1 ! j)"
      by simp
    then show "fold (\<lambda>(y, x). writePixel pixels (num W) (num H) (num Wh) (num Hh) (num y) (num x))
                 (p # ps) buf ! j
               = (if ((j div 4) div Wh, (j div 4) mod Wh) \<in> set (p # ps)
                  then hexBytes pixels W H Wh Hh ((j div 4) mod Wh) ((j div 4) div Wh) ! (j mod 4)
                  else buf ! j)"
      unfolding step using first here by (auto simp: p)
  qed
qed

lemma fold_fold_product:
  "fold (\<lambda>y. fold (\<lambda>x. f y x) xs) ys s = fold (\<lambda>(y, x). f y x) (List.product ys xs) s"
proof (induction ys arbitrary: s)
  case Nil
  show ?case by simp
next
  case (Cons y ys)
  have "fold (\<lambda>(y, x). f y x) (map (Pair y) xs) s = fold (\<lambda>x. f y x) xs s"
    by (simp add: fold_map comp_def)
  with Cons show ?case
    by simp
qed

section \<open>The output buffer in closed form\<close>

lemma hexDims_le: "17 * W div 20 \<le> (W::nat)" "9 * H div 10 \<le> (H::nat)"
  by simp_all

lemma hex_area_le:
  fixes W H :: nat
  shows "(17 * W div 20) * (9 * H div 10) * 4 \<le> W * H * 4"
  using mult_le_mono [OF hexDims_le(1) [of W] hexDims_le(2) [of H]] by simp

lemma row_major_nth:
  assumes b53: "Wh * Hh * 4 < 2 ^ 53"
    and ps: "set ps = {0..<Hh} \<times> {0..<Wh}"
  shows "fold (\<lambda>(y, x). writePixel pixels (num W) (num H) (num Wh) (num Hh) (num y) (num x))
           ps (replicate (Wh * Hh * 4) 0)
         = hexBuffer pixels W H Wh Hh"
proof (rule nth_equalityI)
  have inr: "\<forall>(y, x) \<in> set ps. x < Wh \<and> y < Hh"
    by (auto simp: ps)
  have len0: "length (replicate (Wh * Hh * 4) (0::byte)) = Wh * Hh * 4"
    by simp
  note f = fold_writePixel [OF b53 inr len0, of pixels W H]
  show "length (fold (\<lambda>(y, x). writePixel pixels (num W) (num H) (num Wh) (num Hh) (num y) (num x))
                  ps (replicate (Wh * Hh * 4) 0))
        = length (hexBuffer pixels W H Wh Hh)"
    using f by (simp add: hexBuffer_def)
  fix j
  assume "j < length (fold (\<lambda>(y, x). writePixel pixels (num W) (num H) (num Wh) (num Hh) (num y) (num x))
                        ps (replicate (Wh * Hh * 4) 0))"
  with f have j: "j < Wh * Hh * 4"
    by simp
  then have "j div 4 < Wh * Hh"
    by (simp add: less_mult_imp_div_less)
  then have "j div 4 div Wh < Hh"
    by (simp add: less_mult_imp_div_less mult.commute)
  moreover from j have "0 < Wh"
    by (cases Wh) simp_all
  then have "j div 4 mod Wh < Wh"
    by simp
  ultimately have "(j div 4 div Wh, j div 4 mod Wh) \<in> set ps"
    by (simp add: ps)
  with f j have "fold (\<lambda>(y, x). writePixel pixels (num W) (num H) (num Wh) (num Hh) (num y) (num x))
                   ps (replicate (Wh * Hh * 4) 0) ! j
                 = hexBytes pixels W H Wh Hh (j div 4 mod Wh) (j div 4 div Wh) ! (j mod 4)"
    by simp
  also have "\<dots> = hexBuffer pixels W H Wh Hh ! j"
    using j by (simp add: hexBuffer_def)
  finally show "fold (\<lambda>(y, x). writePixel pixels (num W) (num H) (num Wh) (num Hh) (num y) (num x))
                  ps (replicate (Wh * Hh * 4) 0) ! j
                = hexBuffer pixels W H Wh Hh ! j" .
qed

lemma convertToHexagonal_closed:
  fixes imgWidth imgHeight :: "32 word"
  assumes "unat imgWidth * unat imgHeight * 4 < 2 ^ 53"
  shows "convertToHexagonal imgWidth imgHeight pixels =
         Some \<lparr>width = num (17 * unat imgWidth div 20), height = num (9 * unat imgHeight div 10),
               data = hexBuffer pixels (unat imgWidth) (unat imgHeight)
                        (17 * unat imgWidth div 20) (9 * unat imgHeight div 10)\<rparr>"
proof -
  have b53: "(17 * unat imgWidth div 20) * (9 * unat imgHeight div 10) * 4 < 2 ^ 53"
    using hex_area_le assms by (rule le_less_trans)
  have ps: "set (List.product [0..<9 * unat imgHeight div 10] [0..<17 * unat imgWidth div 20])
            = {0..<9 * unat imgHeight div 10} \<times> {0..<17 * unat imgWidth div 20}"
    by simp
  show ?thesis
    unfolding convertToHexagonal_folds fold_fold_product row_major_nth [OF b53 ps]
    by (rule refl)
qed

lemma length_fold:
  assumes "\<And>x s. length (f x s) = length s"
  shows "length (fold f xs s) = length s"
  by (induction xs arbitrary: s) (simp_all add: assms)

lemma extent_num: "extent (num n) = n"
  by (simp add: num_def)

section \<open>The exceptions of the canvas\<close>

lemma hexDims_pos:
  fixes W H :: nat
  shows "x < 17 * W div 20 \<Longrightarrow> 1 \<le> W" and "y < 9 * H div 10 \<Longrightarrow> 1 \<le> H"
  by (cases W; simp) (cases H; simp)

lemma getImageData_zero:
  "sw = num 0 \<or> sh = num 0 \<Longrightarrow> tempCtx_getImageData bitmap sw sh = Inl IndexSizeError"
  by (auto simp: tempCtx_getImageData_def extent_num)

lemma createImageData_zero:
  "sw = num 0 \<or> sh = num 0 \<Longrightarrow> tempCtx_createImageData sw sh = Inl IndexSizeError"
  by (auto simp: tempCtx_createImageData_def extent_num)

lemma convertToHexagonal_canvas_source_zero:
  fixes imgWidth imgHeight :: "32 word"
  assumes "imgWidth = 0 \<or> imgHeight = 0"
  shows "convertToHexagonal_canvas imgWidth imgHeight bitmap = Inl IndexSizeError"
proof -
  from assms have "num (unat imgWidth) = num 0 \<or> num (unat imgHeight) = num 0"
    by auto
  then have "tempCtx_getImageData bitmap (num (unat imgWidth)) (num (unat imgHeight)) = Inl IndexSizeError"
    by (rule getImageData_zero)
  then show ?thesis
    by (simp add: convertToHexagonal_canvas_def Let_def)
qed

lemma convertToHexagonal_canvas_target_zero:
  fixes imgWidth imgHeight :: "32 word"
  assumes "hexWidth_of (num (unat imgWidth)) = num 0 \<or> hexHeight_of (num (unat imgHeight)) = num 0"
  shows "convertToHexagonal_canvas imgWidth imgHeight bitmap = Inl IndexSizeError"
proof -
  from assms have "tempCtx_createImageData (hexWidth_of (num (unat imgWidth)))
                     (hexHeight_of (num (unat imgHeight))) = Inl IndexSizeError"
    by (rule createImageData_zero)
  then show ?thesis
    by (simp add: convertToHexagonal_canvas_def tempCtx_getImageData_def Let_def)
qed

lemma convertToHexagonal_canvas_positive:
  fixes imgWidth imgHeight :: "32 word"
  assumes "0 < extent (hexWidth_of (num (unat imgWidth)))"
    and "0 < extent (hexHeight_of (num (unat imgHeight)))"
  shows "convertToHexagonal_canvas imgWidth imgHeight bitmap
         = Inr (convertToHexagonal imgWidth imgHeight bitmap)"
proof -
  have w: "unat imgWidth < 2 ^ 32" and h: "unat imgHeight < 2 ^ 32"
    using unsigned_less [of imgWidth] unsigned_less [of imgHeight] by simp_all
  from assms have "0 < 17 * unat imgWidth div 20" and "0 < 9 * unat imgHeight div 10"
    by (simp_all add: hexWidth_of_num [OF w] hexHeight_of_num [OF h] extent_num)
  then have "1 \<le> unat imgWidth" and "1 \<le> unat imgHeight"
    by (auto dest: hexDims_pos)
  then have g: "tempCtx_getImageData bitmap (num (unat imgWidth)) (num (unat imgHeight)) = Inr bitmap"
    by (simp add: tempCtx_getImageData_def extent_num)
  from assms have c: "tempCtx_createImageData (hexWidth_of (num (unat imgWidth)))
                        (hexHeight_of (num (unat imgHeight)))
                      = Inr (createImageData (hexWidth_of (num (unat imgWidth)))
                               (hexHeight_of (num (unat imgHeight))))"
    by (simp add: tempCtx_createImageData_def)
  show ?thesis
    by (simp add: convertToHexagonal_canvas_def convertToHexagonal_def Let_def g c)
qed

lemma convertToHexagonal_length:
  fixes imgWidth imgHeight :: "32 word"
  shows "\<exists>img. convertToHexagonal imgWidth imgHeight pixels = Some img
           \<and> width img = hexWidth_of (num (unat imgWidth))
           \<and> height img = hexHeight_of (num (unat imgHeight))
           \<and> length (data img) = extent (width img) * extent (height img) * 4"
proof -
  have w: "unat imgWidth < 2 ^ 32" and h: "unat imgHeight < 2 ^ 32"
    using unsigned_less [of imgWidth] unsigned_less [of imgHeight] by simp_all
  show ?thesis
    unfolding convertToHexagonal_folds hexWidth_of_num [OF w] hexHeight_of_num [OF h]
    by (simp add: extent_num length_fold length_writePixel)
qed

section \<open>Invalid input\<close>

text \<open>
  Claim C8, as amended. The method has no \<^verbatim>\<open>InvalidInput\<close> error and no check of its own.
  For a width or a height of \<open>0\<close> it fails before any sampling, without reading the bitmap
  and without a result: \<^verbatim>\<open>getImageData\<close> throws the canvas's \<^verbatim>\<open>IndexSizeError\<close>. The failure
  is not distinguished from the one of a degenerate output: for a width and a height of at
  least \<open>1\<close> and a target dimension of \<open>0\<close> the method fails with the same
  \<^verbatim>\<open>IndexSizeError\<close>. The length of the buffer is never compared with \<open>W * H * 4\<close>: when
  both target dimensions are positive the method returns, for every buffer, a target of
  \<open>Wh * Hh * 4\<close> bytes.
\<close>

theorem invalid_input_index_size_error:
  fixes imgWidth imgHeight :: "32 word"
  shows "(imgWidth = 0 \<or> imgHeight = 0 \<longrightarrow>
            tempCtx_getImageData bitmap (num (unat imgWidth)) (num (unat imgHeight))
              = Inl IndexSizeError
          \<and> convertToHexagonal_canvas imgWidth imgHeight bitmap = Inl IndexSizeError)
       \<and> (1 \<le> imgWidth \<and> 1 \<le> imgHeight
            \<and> (hexWidth_of (num (unat imgWidth)) = num 0
               \<or> hexHeight_of (num (unat imgHeight)) = num 0) \<longrightarrow>
            convertToHexagonal_canvas imgWidth imgHeight bitmap = Inl IndexSizeError)
       \<and> (0 < extent (hexWidth_of (num (unat imgWidth)))
            \<and> 0 < extent (hexHeight_of (num (unat imgHeight))) \<longrightarrow>
            (\<exists>img. convertToHexagonal_canvas imgWidth imgHeight bitmap = Inr (Some img)
                 \<and> width img = hexWidth_of (num (unat imgWidth))
                 \<and> height img = hexHeight_of (num (unat imgHeight))
                 \<and> length (data img) = extent (width img) * extent (height img) * 4))"
proof (intro conjI impI)
  assume z: "imgWidth = 0 \<or> imgHeight = 0"
  then have "num (unat imgWidth) = num 0 \<or> num (unat imgHeight) = num 0"
    by auto
  then show "tempCtx_getImageData bitmap (num (unat imgWidth)) (num (unat imgHeight))
             = Inl IndexSizeError"
    by (rule getImageData_zero)
  from z show "convertToHexagonal_canvas imgWidth imgHeight bitmap = Inl IndexSizeError"
    by (rule convertToHexagonal_canvas_source_zero)
next
  assume "1 \<le> imgWidth \<and> 1 \<le> imgHeight
          \<and> (hexWidth_of (num (unat imgWidth)) = num 0
             \<or> hexHeight_of (num (unat imgHeight)) = num 0)"
  then have "hexWidth_of (num (unat imgWidth)) = num 0
             \<or> hexHeight_of (num (unat imgHeight)) = num 0"
    by simp
  then show "convertToHexagonal_canvas imgWidth imgHeight bitmap = Inl IndexSizeError"
    by (rule convertToHexagonal_canvas_target_zero)
next
  assume "0 < extent (hexWidth_of (num (unat imgWidth)))
          \<and> 0 < extent (hexHeight_of (num (unat imgHeight)))"
  then have "convertToHexagonal_canvas imgWidth imgHeight bitmap
             = Inr (convertToHexagonal imgWidth imgHeight bitmap)"
    by (simp add: convertToHexagonal_canvas_positive)
  with convertToHexagonal_length [of imgWidth imgHeight bitmap]
  show "\<exists>img. convertToHexagonal_canvas imgWidth imgHeight bitmap = Inr (Some img)
              \<and> width img = hexWidth_of (num (unat imgWidth))
              \<and> height img = hexHeight_of (num (unat imgHeight))
              \<and> length (data img) = extent (width img) * extent (height img) * 4"
    by auto
qed

theorem invalid_input_index_size_error_witness:
  "convertToHexagonal_canvas 0 5 [] = Inl IndexSizeError \<and>
   convertToHexagonal_canvas 1 5 (replicate 20 9) = Inl IndexSizeError \<and>
   (\<exists>img. convertToHexagonal_canvas 2 2 (replicate 16 7) = Inr (Some img)
        \<and> width img = num 1 \<and> height img = num 1 \<and> length (data img) = 4)"
proof -
  have z: "hexWidth_of (num (unat (1 :: 32 word))) = num 0"
    using hexWidth_of_num [of 1] by simp
  have dw: "hexWidth_of (num (unat (2 :: 32 word))) = num 1"
    and dh: "hexHeight_of (num (unat (2 :: 32 word))) = num 1"
    using hexWidth_of_num [of 2] hexHeight_of_num [of 2] by simp_all
  have a: "convertToHexagonal_canvas 0 5 [] = Inl IndexSizeError"
    using invalid_input_index_size_error [of 0 5 "[]"] by simp
  have b: "convertToHexagonal_canvas 1 5 (replicate 20 9) = Inl IndexSizeError"
    using invalid_input_index_size_error [of 1 5 "replicate 20 9"] z by simp
  have c: "\<exists>img. convertToHexagonal_canvas 2 2 (replicate 16 7) = Inr (Some img)
        \<and> width img = num 1 \<and> height img = num 1 \<and> length (data img) = 4"
    using invalid_input_index_size_error [of 2 2 "replicate 16 7"]
    unfolding dw dh by (auto simp: extent_num)
  from a b c show ?thesis
    by blast
qed

text \<open>
  The claim as stated fails: an image \<open>0\<close> pixels wide and \<open>5\<close> high is invalid input, an
  image \<open>1\<close> pixel wide and \<open>5\<close> high has a degenerate output, and the method ends in the
  same way for both, with the \<^verbatim>\<open>IndexSizeError\<close> of the canvas.
\<close>

theorem invalid_input_index_size_error_counterexample:
  "convertToHexagonal_canvas 0 5 [] = Inl IndexSizeError \<and>
   (1 :: 32 word) \<le> 1 \<and> (1 :: 32 word) \<le> 5 \<and> hexWidth_of (num (unat (1 :: 32 word))) = num 0 \<and>
   convertToHexagonal_canvas 1 5 (replicate 20 9) = convertToHexagonal_canvas 0 5 []"
proof -
  have z: "hexWidth_of (num (unat (1 :: 32 word))) = num 0"
    using hexWidth_of_num [of 1] by simp
  have a: "convertToHexagonal_canvas 0 5 [] = Inl IndexSizeError"
    by (rule convertToHexagonal_canvas_source_zero) simp
  have b: "convertToHexagonal_canvas 1 5 (replicate 20 9) = Inl IndexSizeError"
    by (rule convertToHexagonal_canvas_target_zero) (rule disjI1 [OF z])
  have p: "(1 :: 32 word) \<le> 1" "(1 :: 32 word) \<le> 5"
    by simp_all
  from a b have e: "convertToHexagonal_canvas 1 5 (replicate 20 9) = convertToHexagonal_canvas 0 5 []"
    by simp
  show ?thesis
    by (intro conjI a z p e)
qed

section \<open>Degenerate output\<close>

text \<open>
  Claim C9, as amended. When the width and the height are at least \<open>1\<close> and one of the two
  target dimensions is \<open>0\<close> (a source one pixel wide or one pixel high), the method has no
  guard of its own: \<^verbatim>\<open>getImageData\<close> returns the bitmap, and \<^verbatim>\<open>createImageData\<close>, called
  with the zero dimension, throws \<^verbatim>\<open>IndexSizeError\<close>, which ends the method before the two
  loops, without a target buffer. The sampler is not called: the loops are not reached,
  and their bounds admit no run of the inner body, which holds the only call of the
  sampler (whatever the body does to a state threaded through the two loops, the state
  comes out as it went in).
\<close>

theorem degenerate_output_index_size_error:
  fixes imgWidth imgHeight :: "32 word"
  assumes "1 \<le> imgWidth" and "1 \<le> imgHeight"
    and "hexWidth_of (num (unat imgWidth)) = num 0 \<or> hexHeight_of (num (unat imgHeight)) = num 0"
  shows "tempCtx_getImageData bitmap (num (unat imgWidth)) (num (unat imgHeight)) = Inr bitmap
       \<and> tempCtx_createImageData (hexWidth_of (num (unat imgWidth)))
           (hexHeight_of (num (unat imgHeight))) = Inl IndexSizeError
       \<and> convertToHexagonal_canvas imgWidth imgHeight bitmap = Inl IndexSizeError
       \<and> for_loop (\<lambda>hexY. js_lt hexY (hexHeight_of (num (unat imgHeight))))
           (\<lambda>hexY. for_loop (\<lambda>hexX. js_lt hexX (hexWidth_of (num (unat imgWidth))))
              (\<lambda>hexX s. Some (body hexY hexX s)) (num 0))
           (num 0) s0
         = Some s0"
proof (intro conjI)
  define Wh where "Wh = 17 * unat imgWidth div 20"
  define Hh where "Hh = 9 * unat imgHeight div 10"
  have w: "unat imgWidth < 2 ^ 32" and h: "unat imgHeight < 2 ^ 32"
    using unsigned_less [of imgWidth] unsigned_less [of imgHeight] by simp_all
  have dw: "hexWidth_of (num (unat imgWidth)) = num Wh"
    and dh: "hexHeight_of (num (unat imgHeight)) = num Hh"
    using hexWidth_of_num [OF w] hexHeight_of_num [OF h] by (simp_all add: Wh_def Hh_def)
  from assms(3) have z: "Wh = 0 \<or> Hh = 0"
    by (simp add: dw dh)
  have wh: "Wh < 2 ^ 53" and hh: "Hh < 2 ^ 53"
    using w h by (simp_all add: Wh_def Hh_def)
  from z have fz: "fold (\<lambda>y. fold (\<lambda>x. f y x) [0..<Wh]) [0..<Hh] s = s" for f and s :: 's
    by (auto simp: fold_id)
  from assms(1,2) have "0 < unat imgWidth" and "0 < unat imgHeight"
    by (simp_all add: word_le_nat_alt)
  then show "tempCtx_getImageData bitmap (num (unat imgWidth)) (num (unat imgHeight)) = Inr bitmap"
    by (simp add: tempCtx_getImageData_def extent_num)
  from assms(3) show "tempCtx_createImageData (hexWidth_of (num (unat imgWidth)))
                        (hexHeight_of (num (unat imgHeight))) = Inl IndexSizeError"
    by (rule createImageData_zero)
  from assms(3) show "convertToHexagonal_canvas imgWidth imgHeight bitmap = Inl IndexSizeError"
    by (rule convertToHexagonal_canvas_target_zero)
  have inner: "for_loop (\<lambda>hexX. js_lt hexX (num Wh)) (\<lambda>hexX s. Some (body hexY hexX s)) (num 0) s
               = Some (fold (\<lambda>x. body hexY (num x)) [0..<Wh] s)" for hexY s
    by (rule for_loop_upto [OF _ wh]) simp_all
  have "for_loop (\<lambda>hexY. js_lt hexY (num Hh))
          (\<lambda>hexY. for_loop (\<lambda>hexX. js_lt hexX (num Wh)) (\<lambda>hexX s. Some (body hexY hexX s)) (num 0))
          (num 0) s0
        = Some (fold (\<lambda>y. fold (\<lambda>x. body (num y) (num x)) [0..<Wh]) [0..<Hh] s0)"
    by (rule for_loop_upto [OF _ hh]) (simp_all add: inner)
  then show "for_loop (\<lambda>hexY. js_lt hexY (hexHeight_of (num (unat imgHeight))))
           (\<lambda>hexY. for_loop (\<lambda>hexX. js_lt hexX (hexWidth_of (num (unat imgWidth))))
              (\<lambda>hexX s. Some (body hexY hexX s)) (num 0))
           (num 0) s0
         = Some s0"
    by (simp only: dw dh fz)
qed

theorem degenerate_output_index_size_error_witness:
  "(1 :: 32 word) \<le> 1 \<and> (1 :: 32 word) \<le> 5 \<and> hexWidth_of (num (unat (1 :: 32 word))) = num 0 \<and>
   tempCtx_createImageData (num 0) (hexHeight_of (num (unat (5 :: 32 word)))) = Inl IndexSizeError \<and>
   convertToHexagonal_canvas 1 5 (replicate 20 9) = Inl IndexSizeError \<and>
   for_loop (\<lambda>hexY. js_lt hexY (hexHeight_of (num (unat (5 :: 32 word)))))
           (\<lambda>hexY. for_loop (\<lambda>hexX. js_lt hexX (hexWidth_of (num (unat (1 :: 32 word)))))
              (\<lambda>hexX n. Some (Suc n)) (num 0))
           (num 0) (0 :: nat)
     = Some 0"
proof -
  have z: "hexWidth_of (num (unat (1 :: 32 word))) = num 0"
    using hexWidth_of_num [of 1] by simp
  have p: "(1 :: 32 word) \<le> 1" "(1 :: 32 word) \<le> 5"
    by simp_all
  from degenerate_output_index_size_error
         [OF p disjI1 [OF z], of "replicate 20 9" "\<lambda>_ _. Suc" 0] z p
  show ?thesis
    by simp
qed

text \<open>
  The claim as stated fails: for the \<open>20\<close> bytes of an image \<open>1\<close> pixel wide and \<open>5\<close> high
  the method raises \<^verbatim>\<open>IndexSizeError\<close> and returns no image, empty or not.
\<close>

theorem degenerate_output_index_size_error_counterexample:
  "(1 :: 32 word) \<le> 1 \<and> (1 :: 32 word) \<le> 5 \<and> hexWidth_of (num (unat (1 :: 32 word))) = num 0 \<and>
   length (replicate 20 (9 :: byte)) = unat (1 :: 32 word) * unat (5 :: 32 word) * 4 \<and>
   convertToHexagonal_canvas 1 5 (replicate 20 9) = Inl IndexSizeError \<and>
   (\<forall>img. convertToHexagonal_canvas 1 5 (replicate 20 9) \<noteq> Inr (Some img))"
proof -
  have z: "hexWidth_of (num (unat (1 :: 32 word))) = num 0"
    using hexWidth_of_num [of 1] by simp
  have b: "convertToHexagonal_canvas 1 5 (replicate 20 9) = Inl IndexSizeError"
    by (rule convertToHexagonal_canvas_target_zero) (rule disjI1 [OF z])
  have p: "(1 :: 32 word) \<le> 1" "(1 :: 32 word) \<le> 5"
    by simp_all
  have l: "length (replicate 20 (9 :: byte)) = unat (1 :: 32 word) * unat (5 :: 32 word) * 4"
    by simp
  from b have n: "\<forall>img. convertToHexagonal_canvas 1 5 (replicate 20 9) \<noteq> Inr (Some img)"
    by simp
  show ?thesis
    by (intro conjI p z l b n)
qed

section \<open>The alpha channel\<close>

lemma hexBytes_alpha: "hexBytes pixels W H Wh Hh x y ! 3 = 255"
  by (simp add: hexBytes_def Let_def del: ToUint8Clamp.simps)

lemma hexBuffer_nth:
  assumes "x < Wh" and "y < Hh" and "c < 4"
  shows "hexBuffer pixels W H Wh Hh ! ((y * Wh + x) * 4 + c) = hexBytes pixels W H Wh Hh x y ! c"
proof -
  define k where "k = y * Wh + x"
  define j where "j = k * 4 + c"
  have "j \<le> k * 4 + 3"
    using assms(3) by (simp add: j_def)
  also have "\<dots> < Wh * Hh * 4"
    unfolding k_def by (rule pixel_in_range [OF assms(1,2)])
  finally have j: "j < Wh * Hh * 4" .
  have d: "j div 4 = k" and m: "j mod 4 = c"
    using assms(3) by (simp_all add: j_def)
  have kd: "k div Wh = y" and km: "k mod Wh = x"
    using assms(1) by (simp_all add: k_def)
  have "hexBuffer pixels W H Wh Hh ! j
        = hexBytes pixels W H Wh Hh ((j div 4) mod Wh) ((j div 4) div Wh) ! (j mod 4)"
    unfolding hexBuffer_def using j by (simp del: upt_Suc)
  then show ?thesis
    unfolding d m kd km unfolding j_def k_def .
qed

lemma source_image_53:
  assumes "source_image imgWidth imgHeight pixels"
  shows "unat imgWidth * unat imgHeight * 4 < 2 ^ 53"
    and "length pixels = unat imgWidth * unat imgHeight * 4"
proof -
  from assms have l: "length pixels = unat imgWidth * unat imgHeight * 4"
    and b: "length pixels < 2 ^ 53"
    unfolding source_image_def by blast+
  from b show "unat imgWidth * unat imgHeight * 4 < 2 ^ 53"
    unfolding l .
  from l show "length pixels = unat imgWidth * unat imgHeight * 4" .
qed

lemma length_hexBuffer: "length (hexBuffer pixels W H Wh Hh) = Wh * Hh * 4"
  by (simp add: hexBuffer_def)

text \<open>
  Claim C6. For every source image the transform returns, and the fourth byte of every
  output pixel, the one stored at \<^verbatim>\<open>hexIndex + 3\<close>, is \<open>255\<close>, whatever the source holds.
\<close>

theorem alpha_always_opaque:
  fixes imgWidth imgHeight :: "32 word"
  assumes "source_image imgWidth imgHeight pixels"
  shows "\<exists>img. convertToHexagonal imgWidth imgHeight pixels = Some img
           \<and> length (data img) = extent (width img) * extent (height img) * 4
           \<and> (\<forall>hexX < extent (width img). \<forall>hexY < extent (height img).
                 data img ! ((hexY * extent (width img) + hexX) * 4 + 3) = 255)"
proof -
  define Wh where "Wh = 17 * unat imgWidth div 20"
  define Hh where "Hh = 9 * unat imgHeight div 10"
  define img where "img = \<lparr>width = num Wh, height = num Hh,
                             data = hexBuffer pixels (unat imgWidth) (unat imgHeight) Wh Hh\<rparr>"
  have c: "convertToHexagonal imgWidth imgHeight pixels = Some img"
    unfolding img_def Wh_def Hh_def
    by (rule convertToHexagonal_closed [OF source_image_53(1) [OF assms]])
  have sel: "extent (width img) = Wh" "extent (height img) = Hh"
    "data img = hexBuffer pixels (unat imgWidth) (unat imgHeight) Wh Hh"
    by (simp_all add: img_def extent_num)
  have len: "length (data img) = extent (width img) * extent (height img) * 4"
    unfolding sel by (rule length_hexBuffer)
  have alpha: "data img ! ((hexY * extent (width img) + hexX) * 4 + 3) = 255"
    if "hexX < extent (width img)" and "hexY < extent (height img)" for hexX hexY
    using that unfolding sel by (simp only: hexBuffer_nth hexBytes_alpha)
  from c len alpha show ?thesis
    by blast
qed

theorem alpha_always_opaque_witness:
  "source_image 2 2 (replicate 16 7) \<and>
   (\<exists>img. convertToHexagonal 2 2 (replicate 16 7) = Some img \<and> length (data img) = 4
      \<and> data img ! 3 = 255)"
proof -
  have src: "source_image 2 2 (replicate 16 7)"
    by (simp add: source_image_def)
  have "unat (2 :: 32 word) * unat (2 :: 32 word) * 4 < 2 ^ 53"
    by simp
  from convertToHexagonal_closed [OF this, of "replicate 16 7"]
  obtain d where c: "convertToHexagonal 2 2 (replicate 16 7)
                     = Some \<lparr>width = num 1, height = num 1, data = d\<rparr>"
    by simp
  from alpha_always_opaque [OF src] c
  have "length d = 4 \<and> d ! 3 = 255"
    by (simp add: extent_num)
  with src c show ?thesis
    by simp
qed

section \<open>The order of the output pixels\<close>

text \<open>
  Claim C7. The transform is a function of the width, the height and the source buffer,
  so two runs on the same input give the same bytes. Each output byte is a function of
  its own pixel coordinates and the source alone (\<open>hexBuffer\<close>), and storing the output
  pixels in any order that reaches each of them, row by row or not, once or several times,
  fills the target buffer with the same bytes as the two loops.
\<close>

theorem order_independent:
  fixes imgWidth imgHeight :: "32 word"
  assumes "source_image imgWidth imgHeight pixels"
    and "set order = {0..<extent (hexHeight_of (num (unat imgHeight)))}
                     \<times> {0..<extent (hexWidth_of (num (unat imgWidth)))}"
  shows "convertToHexagonal imgWidth imgHeight pixels
         = Some \<lparr>width = hexWidth_of (num (unat imgWidth)),
                 height = hexHeight_of (num (unat imgHeight)),
                 data = fold (\<lambda>(hexY, hexX).
                          writePixel pixels (num (unat imgWidth)) (num (unat imgHeight))
                            (hexWidth_of (num (unat imgWidth))) (hexHeight_of (num (unat imgHeight)))
                            (num hexY) (num hexX))
                        order
                        (createImageData (hexWidth_of (num (unat imgWidth)))
                           (hexHeight_of (num (unat imgHeight))))\<rparr>
         \<and> (\<exists>img. convertToHexagonal imgWidth imgHeight pixels = Some img
                \<and> data img = hexBuffer pixels (unat imgWidth) (unat imgHeight)
                                 (extent (width img)) (extent (height img)))"
proof -
  define Wh where "Wh = 17 * unat imgWidth div 20"
  define Hh where "Hh = 9 * unat imgHeight div 10"
  have w: "unat imgWidth < 2 ^ 32" and h: "unat imgHeight < 2 ^ 32"
    using unsigned_less [of imgWidth] unsigned_less [of imgHeight] by simp_all
  have dw: "hexWidth_of (num (unat imgWidth)) = num Wh"
    and dh: "hexHeight_of (num (unat imgHeight)) = num Hh"
    using hexWidth_of_num [OF w] hexHeight_of_num [OF h] by (simp_all add: Wh_def Hh_def)
  from assms(1) have s53: "unat imgWidth * unat imgHeight * 4 < 2 ^ 53"
    by (rule source_image_53)
  have b53: "Wh * Hh * 4 < 2 ^ 53"
    unfolding Wh_def Hh_def using hex_area_le s53 by (rule le_less_trans)
  from assms(2) have ord: "set order = {0..<Hh} \<times> {0..<Wh}"
    by (simp add: dw dh extent_num)
  have buf: "createImageData (num Wh) (num Hh) = replicate (Wh * Hh * 4) 0"
    by (simp add: createImageData_def extent_num)
  have c: "convertToHexagonal imgWidth imgHeight pixels
           = Some \<lparr>width = num Wh, height = num Hh,
                   data = hexBuffer pixels (unat imgWidth) (unat imgHeight) Wh Hh\<rparr>"
    unfolding Wh_def Hh_def by (rule convertToHexagonal_closed [OF s53])
  show ?thesis
    unfolding dw dh buf row_major_nth [OF b53 ord] c
    by (simp add: extent_num)
qed

theorem order_independent_witness:
  "source_image 3 3 (replicate 36 5) \<and>
   set [(1, 1), (0, 1), (1, 0), (0, 0)] = {0..<(2::nat)} \<times> {0..<(2::nat)} \<and>
   convertToHexagonal 3 3 (replicate 36 5)
     = Some \<lparr>width = num 2, height = num 2,
             data = fold (\<lambda>(hexY, hexX).
                      writePixel (replicate 36 5) (num 3) (num 3) (num 2) (num 2) (num hexY) (num hexX))
                    [(1, 1), (0, 1), (1, 0), (0, 0)] (replicate 16 0)\<rparr>"
proof -
  have src: "source_image 3 3 (replicate 36 5)"
    by (simp add: source_image_def)
  have dw: "hexWidth_of (num (unat (3 :: 32 word))) = num 2"
    and dh: "hexHeight_of (num (unat (3 :: 32 word))) = num 2"
    using hexWidth_of_num [of 3] hexHeight_of_num [of 3] by simp_all
  have ord: "set [(1, 1), (0, 1), (1, 0), (0, 0)] = {0..<(2::nat)} \<times> {0..<(2::nat)}"
    by (auto simp: less_Suc_eq numeral_2_eq_2)
  have ord': "set [(1, 1), (0, 1), (1, 0), (0, 0)]
              = {0..<extent (hexHeight_of (num (unat (3 :: 32 word))))}
                \<times> {0..<extent (hexWidth_of (num (unat (3 :: 32 word))))}"
    unfolding dw dh extent_num by (rule ord)
  have buf: "createImageData (num 2) (num 2) = replicate 16 0"
    by (simp add: createImageData_def extent_num)
  from order_independent [OF src ord'] src ord show ?thesis
    unfolding dw dh buf by simp
qed

section \<open>Uniform colour\<close>

lemma nth_concat_replicate:
  "i < n * length xs \<Longrightarrow> concat (replicate n xs) ! i = xs ! (i mod length xs)"
proof (induction n arbitrary: i)
  case 0
  then show ?case by simp
next
  case (Suc n)
  show ?case
  proof (cases "i < length xs")
    case True
    then show ?thesis by (simp add: nth_append)
  next
    case False
    then have ge: "length xs \<le> i" by simp
    with Suc.prems have "i - length xs < n * length xs"
      by simp
    from Suc.IH [OF this] have "concat (replicate n xs) ! (i - length xs) = xs ! (i mod length xs)"
      using ge by (simp add: le_mod_geq)
    with False show ?thesis
      by (simp add: nth_append)
  qed
qed

lemma nth_pixels:
  assumes "p < n"
  shows "concat (replicate n [a0, a1, a2, a3]) ! (4 * p) = a0
       \<and> concat (replicate n [a0, a1, a2, a3]) ! (4 * p + 1) = a1
       \<and> concat (replicate n [a0, a1, a2, a3]) ! (4 * p + 2) = a2
       \<and> concat (replicate n [a0, a1, a2, a3]) ! (4 * p + 3) = a3"
proof -
  have m: "(4 * p + c) mod 4 = c" if "c < 4" for c
    using that by simp
  have b: "4 * p + c < n * length [a0, a1, a2, a3]" if "c < 4" for c
    using that assms by simp
  have "concat (replicate n [a0, a1, a2, a3]) ! (4 * p + c) = [a0, a1, a2, a3] ! c" if "c < 4" for c
    using nth_concat_replicate [OF b [OF that]] m [OF that] by simp
  from this [of 0] this [of 1] this [of 2] this [of 3] show ?thesis
    by simp
qed

lemma length_concat_replicate: "length (concat (replicate n xs)) = n * length xs"
  by (induction n) simp_all

lemma tapIndex_pixel:
  assumes "1 \<le> W" and "1 \<le> H"
  obtains p where "tapIndex W H cx cy dx dy = 4 * p" and "p < W * H"
proof -
  define p where "p = nat (clampi 0 (int H - 1) (cy + dy)) * W + nat (clampi 0 (int W - 1) (cx + dx))"
  have e: "tapIndex W H cx cy dx dy = 4 * p"
    by (simp only: tapIndex_def p_def)
  from tapIndex_bound [OF assms, of cx cy dx dy] have "p < W * H"
    unfolding e by simp
  with e show ?thesis
    by (rule that)
qed

lemma weightedSum_const:
  "(\<Sum>(dy, dx)\<leftarrow>taps. tapWeight dx dy * v) = v"
  by (simp add: taps_def tapWeight_def)

lemma weightedSum_uniform:
  assumes W: "1 \<le> W" and H: "1 \<le> H"
    and uni: "\<And>p. p < W * H \<Longrightarrow> pixels ! (4 * p + c) = v"
  shows "weightedSum pixels W H cx cy c = of_nat (unat v)"
proof -
  have "pixels ! (tapIndex W H cx cy dx dy + c) = v" for dx dy
  proof -
    obtain p where "tapIndex W H cx cy dx dy = 4 * p" and "p < W * H"
      by (rule tapIndex_pixel [OF W H])
    then show ?thesis
      by (simp only: uni)
  qed
  then have "weightedSum pixels W H cx cy c = (\<Sum>(dy, dx)\<leftarrow>taps. tapWeight dx dy * of_nat (unat v))"
    by (simp only: weightedSum_def)
  then show ?thesis
    by (simp only: weightedSum_const)
qed

lemma sampledChannel_uniform:
  assumes W: "1 \<le> W" and H: "1 \<le> H"
    and uni: "\<And>p. p < W * H \<Longrightarrow> pixels ! (4 * p + c) = v"
  shows "word_of_int (sampledChannel pixels W H cx cy c) = v"
proof -
  have le: "int (unat v) \<le> 255"
    using uint_lt2p [of v] by simp
  have "\<lfloor>(of_nat (unat v) :: rat) + 1/2\<rfloor> = int (unat v)"
    by (intro floor_unique) simp_all
  then have "sampledChannel pixels W H cx cy c = clampi 0 255 (int (unat v))"
    by (simp only: sampledChannel_floor weightedSum_uniform [OF W H uni])
  also have "\<dots> = int (unat v)"
    using le by (simp add: clampi_def)
  finally show ?thesis
    by simp
qed

lemma hexDims_32:
  fixes W H :: nat
  shows "W < 2 ^ 32 \<Longrightarrow> 17 * W div 20 < 2 ^ 32" and "H < 2 ^ 32 \<Longrightarrow> 9 * H div 10 < 2 ^ 32"
  by simp_all

text \<open>
  Claim C5. When every pixel of a source image has the same red, green and blue bytes,
  every output pixel has these three bytes and alpha \<open>255\<close>: the weights sum to one, the
  sums are exact, and rounding and clamping leave a byte as it is.
\<close>

theorem uniform_color_preserved:
  fixes imgWidth imgHeight :: "32 word"
  assumes src: "source_image imgWidth imgHeight pixels"
    and uni: "\<forall>p < unat imgWidth * unat imgHeight.
                pixels ! (4 * p) = cr \<and> pixels ! (4 * p + 1) = cg \<and> pixels ! (4 * p + 2) = cb"
  shows "convertToHexagonal imgWidth imgHeight pixels
         = Some \<lparr>width = hexWidth_of (num (unat imgWidth)),
                 height = hexHeight_of (num (unat imgHeight)),
                 data = concat (replicate (extent (hexWidth_of (num (unat imgWidth)))
                                           * extent (hexHeight_of (num (unat imgHeight))))
                                  [cr, cg, cb, 255])\<rparr>"
proof -
  define W where "W = unat imgWidth"
  define H where "H = unat imgHeight"
  define Wh where "Wh = 17 * W div 20"
  define Hh where "Hh = 9 * H div 10"
  have w: "W < 2 ^ 32" and h: "H < 2 ^ 32"
    using unsigned_less [of imgWidth] unsigned_less [of imgHeight] by (simp_all add: W_def H_def)
  have dw: "hexWidth_of (num (unat imgWidth)) = num Wh"
    and dh: "hexHeight_of (num (unat imgHeight)) = num Hh"
    using hexWidth_of_num [OF w] hexHeight_of_num [OF h] by (simp_all add: Wh_def Hh_def W_def H_def)
  have s53: "W * H * 4 < 2 ^ 53" and len: "length pixels = W * H * 4"
    using source_image_53 [OF src] by (simp_all only: W_def H_def)
  have wh: "Wh < 2 ^ 32"
    unfolding Wh_def using w by (rule hexDims_32)
  have hh: "Hh < 2 ^ 32"
    unfolding Hh_def using h by (rule hexDims_32)
  have u0: "pixels ! (4 * p + 0) = cr" and u1: "pixels ! (4 * p + 1) = cg"
    and u2: "pixels ! (4 * p + 2) = cb" if "p < W * H" for p
    using uni that by (simp_all add: W_def H_def)
  have bytes: "hexBytes pixels W H Wh Hh x y = [cr, cg, cb, 255]" if x: "x < Wh" and y: "y < Hh" for x y
  proof -
    have W1: "1 \<le> W"
      using x unfolding Wh_def by (rule hexDims_pos)
    have H1: "1 \<le> H"
      using y unfolding Hh_def by (rule hexDims_pos)
    show ?thesis
      unfolding hexBytes_exact [OF W1 H1 w h len s53 wh hh x y]
      by (simp only: sampledChannel_uniform [OF W1 H1 u0] sampledChannel_uniform [OF W1 H1 u1]
          sampledChannel_uniform [OF W1 H1 u2] One_nat_def [symmetric])
  qed
  have "hexBuffer pixels W H Wh Hh = concat (replicate (Wh * Hh) [cr, cg, cb, 255])"
  proof (rule nth_equalityI)
    show "length (hexBuffer pixels W H Wh Hh) = length (concat (replicate (Wh * Hh) [cr, cg, cb, 255]))"
      by (simp add: length_hexBuffer length_concat_replicate)
    fix j assume "j < length (hexBuffer pixels W H Wh Hh)"
    then have j: "j < Wh * Hh * 4"
      by (simp only: length_hexBuffer)
    then have "j div 4 < Wh * Hh"
      by (simp add: less_mult_imp_div_less)
    then have y: "j div 4 div Wh < Hh"
      by (simp add: less_mult_imp_div_less mult.commute)
    from j have "0 < Wh"
      by (cases Wh) simp_all
    then have x: "j div 4 mod Wh < Wh"
      by simp
    have "hexBuffer pixels W H Wh Hh ! j
          = hexBytes pixels W H Wh Hh (j div 4 mod Wh) (j div 4 div Wh) ! (j mod 4)"
      unfolding hexBuffer_def using j by (simp del: upt_Suc)
    also have "\<dots> = [cr, cg, cb, 255] ! (j mod 4)"
      by (simp only: bytes [OF x y])
    also have "\<dots> = concat (replicate (Wh * Hh) [cr, cg, cb, 255]) ! j"
      using j by (simp add: nth_concat_replicate)
    finally show "hexBuffer pixels W H Wh Hh ! j = concat (replicate (Wh * Hh) [cr, cg, cb, 255]) ! j" .
  qed
  with convertToHexagonal_closed [OF s53 [unfolded W_def H_def], of pixels]
  show ?thesis
    unfolding dw dh extent_num by (simp only: W_def H_def Wh_def Hh_def)
qed

theorem uniform_color_preserved_witness:
  "source_image 10 10 (concat (replicate 100 [255, 0, 0, 255])) \<and>
   convertToHexagonal 10 10 (concat (replicate 100 [255, 0, 0, 255]))
     = Some \<lparr>width = num 8, height = num 9, data = concat (replicate 72 [255, 0, 0, 255])\<rparr>"
proof -
  define red :: "byte list" where "red = concat (replicate 100 [255, 0, 0, 255])"
  have src: "source_image 10 10 red"
    by (simp add: source_image_def red_def length_concat_replicate)
  have uni: "\<forall>p < unat (10 :: 32 word) * unat (10 :: 32 word).
               red ! (4 * p) = 255 \<and> red ! (4 * p + 1) = 0 \<and> red ! (4 * p + 2) = 0"
  proof (intro allI impI)
    fix p
    assume "p < unat (10 :: 32 word) * unat (10 :: 32 word)"
    then have "p < 100" by simp
    from nth_pixels [OF this, of 255 0 0 255]
    show "red ! (4 * p) = 255 \<and> red ! (4 * p + 1) = 0 \<and> red ! (4 * p + 2) = 0"
      unfolding red_def by blast
  qed
  have dw: "hexWidth_of (num (unat (10 :: 32 word))) = num 8"
    and dh: "hexHeight_of (num (unat (10 :: 32 word))) = num 9"
    using hexWidth_of_num [of 10] hexHeight_of_num [of 10] by simp_all
  from uniform_color_preserved [OF src uni] src show ?thesis
    unfolding dw dh extent_num red_def by simp
qed

section \<open>The source alpha channel\<close>

lemma weightedSum_cong:
  assumes W: "1 \<le> W" and H: "1 \<le> H" and c: "c < 3"
    and eq: "\<And>i. i < W * H * 4 \<Longrightarrow> i mod 4 \<noteq> 3 \<Longrightarrow> pixels1 ! i = pixels2 ! i"
  shows "weightedSum pixels1 W H cx cy c = weightedSum pixels2 W H cx cy c"
proof -
  have "pixels1 ! (tapIndex W H cx cy dx dy + c) = pixels2 ! (tapIndex W H cx cy dx dy + c)" for dx dy
  proof -
    obtain p where t: "tapIndex W H cx cy dx dy = 4 * p" and p: "p < W * H"
      by (rule tapIndex_pixel [OF W H])
    from p c have "4 * p + c < W * H * 4"
      by simp
    moreover from c have "(4 * p + c) mod 4 \<noteq> 3"
      by simp
    ultimately show ?thesis
      unfolding t by (rule eq)
  qed
  then show ?thesis
    by (simp only: weightedSum_def)
qed

text \<open>
  Claim C10. Two source images of the same dimensions that agree on every red, green and
  blue byte give the same result, whatever their alpha bytes: the sampler reads the
  buffer at \<^verbatim>\<open>pixelIndex\<close>, \<^verbatim>\<open>pixelIndex + 1\<close> and \<^verbatim>\<open>pixelIndex + 2\<close> only, and the writer
  stores the constant \<open>255\<close>.
\<close>

theorem source_alpha_ignored:
  fixes imgWidth imgHeight :: "32 word"
  assumes src1: "source_image imgWidth imgHeight pixels1"
    and src2: "source_image imgWidth imgHeight pixels2"
    and rgb: "\<forall>i < length pixels1. i mod 4 \<noteq> 3 \<longrightarrow> pixels1 ! i = pixels2 ! i"
  shows "convertToHexagonal imgWidth imgHeight pixels1 = convertToHexagonal imgWidth imgHeight pixels2"
proof -
  define W where "W = unat imgWidth"
  define H where "H = unat imgHeight"
  define Wh where "Wh = 17 * W div 20"
  define Hh where "Hh = 9 * H div 10"
  have w: "W < 2 ^ 32" and h: "H < 2 ^ 32"
    using unsigned_less [of imgWidth] unsigned_less [of imgHeight] by (simp_all add: W_def H_def)
  have s53: "W * H * 4 < 2 ^ 53" and len1: "length pixels1 = W * H * 4"
    using source_image_53 [OF src1] by (simp_all only: W_def H_def)
  have len2: "length pixels2 = W * H * 4"
    using source_image_53(2) [OF src2] by (simp only: W_def H_def)
  have wh: "Wh < 2 ^ 32"
    unfolding Wh_def using w by (rule hexDims_32)
  have hh: "Hh < 2 ^ 32"
    unfolding Hh_def using h by (rule hexDims_32)
  have eq: "pixels1 ! i = pixels2 ! i" if "i < W * H * 4" and "i mod 4 \<noteq> 3" for i
    using rgb that by (simp add: len1)
  have bytes: "hexBytes pixels1 W H Wh Hh x y = hexBytes pixels2 W H Wh Hh x y"
    if x: "x < Wh" and y: "y < Hh" for x y
  proof -
    have W1: "1 \<le> W"
      using x unfolding Wh_def by (rule hexDims_pos)
    have H1: "1 \<le> H"
      using y unfolding Hh_def by (rule hexDims_pos)
    have "weightedSum pixels1 W H cx cy c = weightedSum pixels2 W H cx cy c" if "c < 3" for cx cy c
      using W1 H1 that eq by (rule weightedSum_cong)
    then have "sampledChannel pixels1 W H cx cy c = sampledChannel pixels2 W H cx cy c"
      if "c < 3" for cx cy c
      using that by (simp only: sampledChannel_def)
    from this [of 0] this [of 1] this [of 2] show ?thesis
      unfolding hexBytes_exact [OF W1 H1 w h len1 s53 wh hh x y]
        hexBytes_exact [OF W1 H1 w h len2 s53 wh hh x y]
      by simp
  qed
  have "hexBuffer pixels1 W H Wh Hh = hexBuffer pixels2 W H Wh Hh"
    unfolding hexBuffer_def
  proof (rule map_cong [OF refl])
    fix j assume "j \<in> set [0..<Wh * Hh * 4]"
    then have j: "j < Wh * Hh * 4"
      by simp
    then have "j div 4 < Wh * Hh"
      by (simp add: less_mult_imp_div_less)
    then have y: "j div 4 div Wh < Hh"
      by (simp add: less_mult_imp_div_less mult.commute)
    from j have "0 < Wh"
      by (cases Wh) simp_all
    then have x: "j div 4 mod Wh < Wh"
      by simp
    show "hexBytes pixels1 W H Wh Hh (j div 4 mod Wh) (j div 4 div Wh) ! (j mod 4)
          = hexBytes pixels2 W H Wh Hh (j div 4 mod Wh) (j div 4 div Wh) ! (j mod 4)"
      by (simp only: bytes [OF x y])
  qed
  then show ?thesis
    unfolding convertToHexagonal_closed [OF s53 [unfolded W_def H_def]]
    by (simp only: W_def H_def Wh_def Hh_def)
qed

theorem source_alpha_ignored_witness:
  "source_image 2 2 (concat (replicate 4 [10, 20, 30, 255])) \<and>
   source_image 2 2 (concat (replicate 4 [10, 20, 30, 0])) \<and>
   concat (replicate 4 [10, 20, 30, 255 :: byte]) \<noteq> concat (replicate 4 [10, 20, 30, 0]) \<and>
   convertToHexagonal 2 2 (concat (replicate 4 [10, 20, 30, 255]))
     = convertToHexagonal 2 2 (concat (replicate 4 [10, 20, 30, 0]))"
proof -
  define p1 :: "byte list" where "p1 = concat (replicate 4 [10, 20, 30, 255])"
  define p2 :: "byte list" where "p2 = concat (replicate 4 [10, 20, 30, 0])"
  have src1: "source_image 2 2 p1" and src2: "source_image 2 2 p2"
    by (simp_all add: source_image_def p1_def p2_def length_concat_replicate)
  have rgb: "\<forall>i < length p1. i mod 4 \<noteq> 3 \<longrightarrow> p1 ! i = p2 ! i"
  proof (intro allI impI)
    fix i assume "i < length p1" and n3: "i mod 4 \<noteq> 3"
    then have i: "i < 4 * length [10, 20, 30, 255 :: byte]" "i < 4 * length [10, 20, 30, 0 :: byte]"
      by (simp_all add: p1_def length_concat_replicate)
    have "i mod 4 < 4" by simp
    with n3 have "i mod 4 = 0 \<or> i mod 4 = 1 \<or> i mod 4 = 2"
      by linarith
    then show "p1 ! i = p2 ! i"
      unfolding p1_def p2_def nth_concat_replicate [OF i(1)] nth_concat_replicate [OF i(2)]
      by auto
  qed
  have "p1 ! 3 = 255" and "p2 ! 3 = 0"
    using nth_pixels [of 0 4 10 20 30 "255 :: byte"] nth_pixels [of 0 4 10 20 30 "0 :: byte"]
    by (simp_all add: p1_def p2_def)
  then have ne: "p1 \<noteq> p2"
    by auto
  from source_alpha_ignored [OF src1 src2 rgb] src1 src2 ne show ?thesis
    unfolding p1_def p2_def by simp
qed

section \<open>The weighted sampler\<close>

lemma floor_half: "\<lfloor>1 / 2 :: rat\<rfloor> = 0"
  by (rule floor_unique) simp_all

lemma mapX_origin: "mapX W Wh 0 0 = 0"
  by (simp add: mapX_def rnd_0 round_half_away_def floor_half)

lemma mapY_origin: "mapY H Hh 0 = 0"
  by (simp add: mapY_def rnd_0 round_half_away_def floor_half)

text \<open>
  Claim C3. For every output pixel of every source image, the running sums of the sampler
  at the mapped center are the exact weighted sums over the nine clamped taps, weight
  \<open>0.5\<close> at the center and \<open>0.0625\<close> around it; the accumulated total weight is exactly \<open>1\<close>,
  at the borders too; and each channel of the result is the sum divided by the total
  weight, rounded once and clamped to \<open>[0, 255]\<close>.
\<close>

theorem sampler_weighted_average:
  fixes imgWidth imgHeight :: "32 word"
  assumes src: "source_image imgWidth imgHeight pixels"
    and x: "hexX < extent (hexWidth_of (num (unat imgWidth)))"
    and y: "hexY < extent (hexHeight_of (num (unat imgHeight)))"
  defines "W \<equiv> unat imgWidth" and "H \<equiv> unat imgHeight"
  defines "hexWidth \<equiv> hexWidth_of (num W)" and "hexHeight \<equiv> hexHeight_of (num H)"
  defines "cx \<equiv> mapX W (extent hexWidth) hexX hexY" and "cy \<equiv> mapY H (extent hexHeight) hexY"
  shows "centerX (num W) (num hexX) (num hexY) hexWidth = Fin (of_int cx)
       \<and> centerY (num H) (num hexY) hexHeight = Fin (of_int cy)
       \<and> window pixels (num W) (num H) (Fin (of_int cx)) (Fin (of_int cy))
           = (Fin (weightedSum pixels W H cx cy 0), Fin (weightedSum pixels W H cx cy 1),
              Fin (weightedSum pixels W H cx cy 2), Fin tapWeightSum)
       \<and> tapWeightSum = 1
       \<and> calculateHexagonalPixel pixels (num W) (num H) (num hexX) (num hexY) hexWidth hexHeight
           = \<lparr>col_r = Fin (of_int (sampledChannel pixels W H cx cy 0)),
              col_g = Fin (of_int (sampledChannel pixels W H cx cy 1)),
              col_b = Fin (of_int (sampledChannel pixels W H cx cy 2))\<rparr>"
proof -
  define Wh where "Wh = 17 * W div 20"
  define Hh where "Hh = 9 * H div 10"
  have w: "W < 2 ^ 32" and h: "H < 2 ^ 32"
    using unsigned_less [of imgWidth] unsigned_less [of imgHeight] by (simp_all add: W_def H_def)
  have dw: "hexWidth = num Wh" and dh: "hexHeight = num Hh"
    using hexWidth_of_num [OF w] hexHeight_of_num [OF h]
    by (simp_all add: Wh_def Hh_def hexWidth_def hexHeight_def)
  have s53: "W * H * 4 < 2 ^ 53" and len: "length pixels = W * H * 4"
    using source_image_53 [OF src] by (simp_all only: W_def H_def)
  have wh: "Wh < 2 ^ 32"
    unfolding Wh_def using w by (rule hexDims_32)
  have hh: "Hh < 2 ^ 32"
    unfolding Hh_def using h by (rule hexDims_32)
  from x have x': "hexX < Wh"
    by (simp add: W_def [symmetric] hexWidth_def [symmetric] dw extent_num)
  from y have y': "hexY < Hh"
    by (simp add: H_def [symmetric] hexHeight_def [symmetric] dh extent_num)
  have W1: "1 \<le> W"
    using x' unfolding Wh_def by (rule hexDims_pos)
  have H1: "1 \<le> H"
    using y' unfolding Hh_def by (rule hexDims_pos)
  have cx: "cx = mapX W Wh hexX hexY" and cy: "cy = mapY H Hh hexY"
    by (simp_all add: cx_def cy_def dw dh extent_num)
  note mx = centerX_mapX [OF w wh x', of hexY]
  note my = centerY_mapY [OF h hh y']
  have 1: "centerX (num W) (num hexX) (num hexY) hexWidth = Fin (of_int cx)"
    unfolding dw cx by (rule mx(1))
  have 2: "centerY (num H) (num hexY) hexHeight = Fin (of_int cy)"
    unfolding dh cy by (rule my(1))
  have 3: "window pixels (num W) (num H) (Fin (of_int cx)) (Fin (of_int cy))
           = (Fin (weightedSum pixels W H cx cy 0), Fin (weightedSum pixels W H cx cy 1),
              Fin (weightedSum pixels W H cx cy 2), Fin tapWeightSum)"
    unfolding cx cy tapWeightSum_one by (rule window_exact [OF W1 H1 len s53 mx(2) my(2)])
  have 4: "calculateHexagonalPixel pixels (num W) (num H) (num hexX) (num hexY) hexWidth hexHeight
           = \<lparr>col_r = Fin (of_int (sampledChannel pixels W H cx cy 0)),
              col_g = Fin (of_int (sampledChannel pixels W H cx cy 1)),
              col_b = Fin (of_int (sampledChannel pixels W H cx cy 2))\<rparr>"
    unfolding dw dh cx cy by (rule calculateHexagonalPixel_exact [OF W1 H1 w h len s53 wh hh x' y'])
  from 1 2 3 4 tapWeightSum_one show ?thesis
    by simp
qed

theorem sampler_weighted_average_witness:
  "source_image 2 2 [10, 20, 30, 40, 50, 60, 70, 80, 90, 100, 110, 120, 130, 140, 150, 160] \<and>
   0 < extent (hexWidth_of (num (unat (2 :: 32 word)))) \<and>
   0 < extent (hexHeight_of (num (unat (2 :: 32 word)))) \<and>
   window [10, 20, 30, 40, 50, 60, 70, 80, 90, 100, 110, 120, 130, 140, 150, 160]
     (num 2) (num 2) (Fin 0) (Fin 0) = (Fin (65 / 2), Fin (85 / 2), Fin (105 / 2), Fin 1) \<and>
   calculateHexagonalPixel [10, 20, 30, 40, 50, 60, 70, 80, 90, 100, 110, 120, 130, 140, 150, 160]
     (num 2) (num 2) (num 0) (num 0) (num 1) (num 1)
     = \<lparr>col_r = Fin 33, col_g = Fin 43, col_b = Fin 53\<rparr>"
proof -
  define px :: "byte list" where
    "px = [10, 20, 30, 40, 50, 60, 70, 80, 90, 100, 110, 120, 130, 140, 150, 160]"
  have src: "source_image 2 2 px"
    by (simp add: source_image_def px_def)
  have u2: "unat (2 :: 32 word) = 2"
    by simp
  have dw: "hexWidth_of (num 2) = num 1" and dh: "hexHeight_of (num 2) = num 1"
    using hexWidth_of_num [of 2] hexHeight_of_num [of 2] by simp_all
  have x: "0 < extent (hexWidth_of (num (unat (2 :: 32 word))))"
    and y: "0 < extent (hexHeight_of (num (unat (2 :: 32 word))))"
    unfolding u2 dw dh extent_num by simp_all
  have ws: "weightedSum px 2 2 0 0 0 = 65 / 2" "weightedSum px 2 2 0 0 1 = 85 / 2"
    "weightedSum px 2 2 0 0 2 = 105 / 2"
    by (simp_all add: weightedSum_def taps_def tapWeight_def tapIndex_def clampi_def px_def)
  have fl: "\<lfloor>33 :: rat\<rfloor> = 33" "\<lfloor>43 :: rat\<rfloor> = 43" "\<lfloor>53 :: rat\<rfloor> = 53"
    by simp_all
  have sc: "sampledChannel px 2 2 0 0 0 = 33" "sampledChannel px 2 2 0 0 1 = 43"
    "sampledChannel px 2 2 0 0 2 = 53"
    unfolding sampledChannel_floor ws by (simp_all add: clampi_def)
  from sampler_weighted_average [OF src x y] src x y show ?thesis
    unfolding u2 dw dh extent_num mapX_origin mapY_origin ws sc tapWeightSum_one px_def [symmetric]
    by simp
qed

section \<open>Clamp-to-edge addressing\<close>

lemma clamped_coordinate:
  assumes "1 \<le> N"
  shows "nat (clampi 0 (int N - 1) v) < N"
proof -
  have "0 \<le> clampi 0 (int N - 1) v \<and> clampi 0 (int N - 1) v \<le> int N - 1"
    using assms by (intro clampi_range) simp
  then show ?thesis
    by linarith
qed

text \<open>
  Claim C4. For every output pixel of every source image and each of the nine offsets,
  the sample coordinates are the center plus the offset clamped to \<open>[0, W - 1]\<close> and
  \<open>[0, H - 1]\<close>: never below \<open>0\<close>, never wrapped around. The three reads of the tap are at
  \<^verbatim>\<open>pixelIndex\<close>, \<^verbatim>\<open>pixelIndex + 1\<close> and \<^verbatim>\<open>pixelIndex + 2\<close>, inside the source buffer, and
  each gives the byte stored there; no tap is skipped (claim C3 sums all nine).
\<close>

theorem reads_within_bounds:
  fixes imgWidth imgHeight :: "32 word"
  assumes src: "source_image imgWidth imgHeight pixels"
    and x: "hexX < extent (hexWidth_of (num (unat imgWidth)))"
    and y: "hexY < extent (hexHeight_of (num (unat imgHeight)))"
    and dx: "dx \<in> {- 1, 0, 1}" and dy: "dy \<in> {- 1, 0, 1}"
  defines "W \<equiv> unat imgWidth" and "H \<equiv> unat imgHeight"
  defines "hexWidth \<equiv> hexWidth_of (num W)" and "hexHeight \<equiv> hexHeight_of (num H)"
  defines "cx \<equiv> mapX W (extent hexWidth) hexX hexY" and "cy \<equiv> mapY H (extent hexHeight) hexY"
  defines "sx \<equiv> nat (clampi 0 (int W - 1) (cx + dx))" and "sy \<equiv> nat (clampi 0 (int H - 1) (cy + dy))"
  defines "i \<equiv> pixelIndex (num W) (num H) (centerX (num W) (num hexX) (num hexY) hexWidth)
                 (centerY (num H) (num hexY) hexHeight) dx dy"
  shows "sample (num W) (centerX (num W) (num hexX) (num hexY) hexWidth) dx = num sx \<and> sx < W
       \<and> sample (num H) (centerY (num H) (num hexY) hexHeight) dy = num sy \<and> sy < H
       \<and> i = num ((sy * W + sx) * 4)
       \<and> (sy * W + sx) * 4 + 3 < length pixels
       \<and> buf_get pixels i = num (unat (pixels ! ((sy * W + sx) * 4)))
       \<and> buf_get pixels (js_add i (num 1)) = num (unat (pixels ! ((sy * W + sx) * 4 + 1)))
       \<and> buf_get pixels (js_add i (num 2)) = num (unat (pixels ! ((sy * W + sx) * 4 + 2)))"
proof -
  define Wh where "Wh = 17 * W div 20"
  define Hh where "Hh = 9 * H div 10"
  define k where "k = (sy * W + sx) * 4"
  have w: "W < 2 ^ 32" and h: "H < 2 ^ 32"
    using unsigned_less [of imgWidth] unsigned_less [of imgHeight] by (simp_all add: W_def H_def)
  have dw: "hexWidth = num Wh" and dh: "hexHeight = num Hh"
    using hexWidth_of_num [OF w] hexHeight_of_num [OF h]
    by (simp_all add: Wh_def Hh_def hexWidth_def hexHeight_def)
  have s53: "W * H * 4 < 2 ^ 53" and len: "length pixels = W * H * 4"
    using source_image_53 [OF src] by (simp_all only: W_def H_def)
  have wh: "Wh < 2 ^ 32"
    unfolding Wh_def using w by (rule hexDims_32)
  have hh: "Hh < 2 ^ 32"
    unfolding Hh_def using h by (rule hexDims_32)
  from x have x': "hexX < Wh"
    by (simp add: W_def [symmetric] hexWidth_def [symmetric] dw extent_num)
  from y have y': "hexY < Hh"
    by (simp add: H_def [symmetric] hexHeight_def [symmetric] dh extent_num)
  have W1: "1 \<le> W"
    using x' unfolding Wh_def by (rule hexDims_pos)
  have H1: "1 \<le> H"
    using y' unfolding Hh_def by (rule hexDims_pos)
  have W53: "W < 2 ^ 53" and H53: "H < 2 ^ 53"
    using w h by simp_all
  have cx: "cx = mapX W Wh hexX hexY" and cy: "cy = mapY H Hh hexY"
    by (simp_all add: cx_def cy_def dw dh extent_num)
  note mx = centerX_mapX [OF w wh x', of hexY, folded cx]
  note my = centerY_mapY [OF h hh y', folded cy]
  have cX: "centerX (num W) (num hexX) (num hexY) hexWidth = Fin (of_int cx)"
    unfolding dw by (rule mx(1))
  have cY: "centerY (num H) (num hexY) hexHeight = Fin (of_int cy)"
    unfolding dh by (rule my(1))
  have 1: "sample (num W) (centerX (num W) (num hexX) (num hexY) hexWidth) dx = num sx"
    unfolding cX sx_def by (rule sample_num [OF W53 mx(2) dx])
  have 2: "sample (num H) (centerY (num H) (num hexY) hexHeight) dy = num sy"
    unfolding cY sy_def by (rule sample_num [OF H53 my(2) dy])
  have 3: "sx < W" and 4: "sy < H"
    unfolding sx_def sy_def by (rule clamped_coordinate [OF W1], rule clamped_coordinate [OF H1])
  have t: "tapIndex W H cx cy dx dy = k"
    by (simp add: tapIndex_def k_def sx_def sy_def)
  have 5: "i = num k"
    unfolding i_def cX cY t [symmetric] by (rule pixelIndex_num [OF W1 H1 s53 mx(2) my(2) dx dy])
  have 6: "k + 3 < length pixels"
    unfolding len t [symmetric] by (rule tapIndex_bound [OF W1 H1])
  from 6 [unfolded len] s53 have "k + 3 < 2 ^ 53"
    by (rule less_trans)
  then have k53: "k + 1 < 2 ^ 53" "k + 2 < 2 ^ 53"
    by simp_all
  from 6 have inb: "k < length pixels" "k + 1 < length pixels" "k + 2 < length pixels"
    by simp_all
  have 7: "buf_get pixels i = num (unat (pixels ! k))"
    unfolding 5 by (rule buf_get_num [OF inb(1)])
  have 8: "buf_get pixels (js_add i (num 1)) = num (unat (pixels ! (k + 1)))"
    unfolding 5 num_add [OF k53(1)] by (rule buf_get_num [OF inb(2)])
  have 9: "buf_get pixels (js_add i (num 2)) = num (unat (pixels ! (k + 2)))"
    unfolding 5 num_add [OF k53(2)] by (rule buf_get_num [OF inb(3)])
  from 1 2 3 4 5 6 7 8 9 show ?thesis
    unfolding k_def by blast
qed

theorem reads_within_bounds_witness:
  "source_image 2 2 [10, 20, 30, 40, 50, 60, 70, 80, 90, 100, 110, 120, 130, 140, 150, 160] \<and>
   0 < extent (hexWidth_of (num (unat (2 :: 32 word)))) \<and>
   0 < extent (hexHeight_of (num (unat (2 :: 32 word)))) \<and>
   sample (num 2) (centerX (num 2) (num 0) (num 0) (num 1)) (- 1) = num 0 \<and>
   sample (num 2) (centerY (num 2) (num 0) (num 1)) 1 = num 1 \<and>
   pixelIndex (num 2) (num 2) (centerX (num 2) (num 0) (num 0) (num 1))
     (centerY (num 2) (num 0) (num 1)) (- 1) 1 = num 8 \<and>
   buf_get [10, 20, 30, 40, 50, 60, 70, 80, 90, 100, 110, 120, 130, 140, 150, 160]
     (pixelIndex (num 2) (num 2) (centerX (num 2) (num 0) (num 0) (num 1))
        (centerY (num 2) (num 0) (num 1)) (- 1) 1) = num 90"
proof -
  define px :: "byte list" where
    "px = [10, 20, 30, 40, 50, 60, 70, 80, 90, 100, 110, 120, 130, 140, 150, 160]"
  have src: "source_image 2 2 px"
    by (simp add: source_image_def px_def)
  have u2: "unat (2 :: 32 word) = 2"
    by simp
  have dw: "hexWidth_of (num 2) = num 1" and dh: "hexHeight_of (num 2) = num 1"
    using hexWidth_of_num [of 2] hexHeight_of_num [of 2] by simp_all
  have x: "0 < extent (hexWidth_of (num (unat (2 :: 32 word))))"
    and y: "0 < extent (hexHeight_of (num (unat (2 :: 32 word))))"
    unfolding u2 dw dh extent_num by simp_all
  have dx: "(- 1 :: int) \<in> {- 1, 0, 1}" and dy: "(1 :: int) \<in> {- 1, 0, 1}"
    by simp_all
  have c: "nat (clampi 0 (int 2 - 1) (0 + - 1)) = 0" "nat (clampi 0 (int 2 - 1) (0 + 1)) = 1"
    by (simp_all add: clampi_def)
  have n: "px ! 8 = 90"
    by (simp add: px_def)
  have u90: "unat (90 :: byte) = 90"
    by simp
  have e: "(1 * 2 + 0) * 4 = (8 :: nat)"
    by simp
  note r = reads_within_bounds [OF src x y dx dy,
      unfolded u2 dw dh extent_num mapX_origin mapY_origin c n u90 e]
  from r src x y show ?thesis
    unfolding px_def [symmetric] by blast
qed

section \<open>The stagger of odd rows\<close>

lemma scale_num:
  assumes N: "N < 2 ^ 32" and Nh: "1 \<le> Nh" "Nh < 2 ^ 32"
  shows "scale (num N) (num Nh) = Fin (rnd (of_nat N / of_nat Nh))"
proof -
  define q :: rat where "q = of_nat N / of_nat Nh"
  have Nhr: "(1::rat) \<le> of_nat Nh" "(of_nat Nh :: rat) < 2 ^ 32"
    using Nh by (simp, metis of_nat_less_iff of_nat_numeral of_nat_power)
  have Nr: "(of_nat N :: rat) < 2 ^ 32"
    using N by (metis of_nat_less_iff of_nat_numeral of_nat_power)
  have sc: "scale (num N) (num Nh) = fl q"
    using Nh by (simp add: scale_def num_def q_def)
  have "fl q = Fin (rnd q)"
  proof (cases "N = 0")
    case True
    then show ?thesis
      by (simp add: q_def fl_0 rnd_0)
  next
    case False
    then have N1: "(1::rat) \<le> of_nat N" by simp
    have "(1::rat) / 2 ^ 100 \<le> 1 / 2 ^ 32"
      by simp
    also have "\<dots> \<le> 1 / of_nat Nh"
      using Nhr by (intro divide_left_mono) simp_all
    also have "\<dots> \<le> of_nat N / of_nat Nh"
      using N1 Nhr by (intro divide_right_mono) simp_all
    finally have lo: "1 / 2 ^ 100 \<le> q"
      by (simp add: q_def)
    have "q \<le> of_nat N / 1"
      unfolding q_def using Nhr by (intro divide_left_mono) simp_all
    also have "\<dots> \<le> 2 ^ 32"
      using Nr by simp
    also have "\<dots> \<le> (2::rat) ^ 100"
      by simp
    finally have hi: "q \<le> 2 ^ 100" .
    from lo hi show ?thesis
      by (rule fl_range)
  qed
  then show ?thesis
    by (simp only: sc q_def)
qed

lemma even_row: "of_nat ((2 * k) mod 2) / 2 = (0 :: rat)"
  by simp

lemma odd_row: "of_nat ((2 * k + 1) mod 2) / 2 = (1 / 2 :: rat)"
  by simp

text \<open>
  Claim C2, as amended. For every output pixel, \<^verbatim>\<open>centerX\<close> and \<^verbatim>\<open>centerY\<close> are the
  specification's \<open>round((hexX + (hexY mod 2) * 0.5) * (W / Wh))\<close> and
  \<open>round(hexY * (H / Hh))\<close> where the quotient and the product are each rounded to binary64
  and \<open>round\<close> is round-half-away-from-zero (the argument is never negative); the stagger
  does not enter \<^verbatim>\<open>centerY\<close>. Between an even row and the odd row after it, for the same
  \<open>hexX\<close>, the exact products differ by exactly \<open>0.5 * scaleX\<close>, and the two pre-rounding
  centers the code computes, which are these products rounded to binary64, differ by
  \<open>0.5 * scaleX\<close> up to \<open>2\<^sup>-\<^sup>1\<^sup>9\<close>.
\<close>

theorem mapper_binary64:
  fixes imgWidth imgHeight :: "32 word"
  assumes x: "hexX < extent (hexWidth_of (num (unat imgWidth)))"
    and y: "hexY < extent (hexHeight_of (num (unat imgHeight)))"
  defines "W \<equiv> unat imgWidth" and "H \<equiv> unat imgHeight"
  defines "hexWidth \<equiv> hexWidth_of (num W)" and "hexHeight \<equiv> hexHeight_of (num H)"
  shows "centerX (num W) (num hexX) (num hexY) hexWidth
           = Fin (of_int (mapX W (extent hexWidth) hexX hexY))
       \<and> centerY (num H) (num hexY) hexHeight = Fin (of_int (mapY H (extent hexHeight) hexY))
       \<and> (\<exists>s p0 p1.
             scale (num W) hexWidth = Fin s
           \<and> staggeredX (num W) (num hexX) (num (2 * (hexY div 2))) hexWidth = Fin p0
           \<and> staggeredX (num W) (num hexX) (num (2 * (hexY div 2) + 1)) hexWidth = Fin p1
           \<and> p0 = rnd (of_nat hexX * s) \<and> p1 = rnd ((of_nat hexX + 1/2) * s)
           \<and> (of_nat hexX + 1/2) * s - of_nat hexX * s = (1/2) * s
           \<and> \<bar>p1 - p0 - (1/2) * s\<bar> \<le> 1 / 2 ^ 19)"
proof -
  define Wh where "Wh = 17 * W div 20"
  define Hh where "Hh = 9 * H div 10"
  have w: "W < 2 ^ 32" and h: "H < 2 ^ 32"
    using unsigned_less [of imgWidth] unsigned_less [of imgHeight] by (simp_all add: W_def H_def)
  have dw: "hexWidth = num Wh" and dh: "hexHeight = num Hh"
    using hexWidth_of_num [OF w] hexHeight_of_num [OF h]
    by (simp_all add: Wh_def Hh_def hexWidth_def hexHeight_def)
  have wh: "Wh < 2 ^ 32"
    unfolding Wh_def using w by (rule hexDims_32)
  have hh: "Hh < 2 ^ 32"
    unfolding Hh_def using h by (rule hexDims_32)
  from x have x': "hexX < Wh"
    by (simp add: W_def [symmetric] hexWidth_def [symmetric] dw extent_num)
  from y have y': "hexY < Hh"
    by (simp add: H_def [symmetric] hexHeight_def [symmetric] dh extent_num)
  from x' have wh1: "1 \<le> Wh"
    by simp
  define s where "s = rnd (of_nat W / of_nat Wh)"
  define p0 where "p0 = rnd (of_nat hexX * s)"
  define p1 where "p1 = rnd ((of_nat hexX + 1/2) * s)"
  have 1: "centerX (num W) (num hexX) (num hexY) hexWidth
           = Fin (of_int (mapX W (extent hexWidth) hexX hexY))"
    unfolding dw extent_num by (rule centerX_mapX(1) [OF w wh x'])
  have 2: "centerY (num H) (num hexY) hexHeight = Fin (of_int (mapY H (extent hexHeight) hexY))"
    unfolding dh extent_num by (rule centerY_mapY(1) [OF h hh y'])
  have 3: "scale (num W) hexWidth = Fin s"
    unfolding dw s_def by (rule scale_num [OF w wh1 wh])
  note e = staggeredX_num [OF w wh x', where y = "2 * (hexY div 2)", unfolded even_row, folded s_def]
  note o = staggeredX_num [OF w wh x', where y = "2 * (hexY div 2) + 1", unfolded odd_row, folded s_def]
  have 4: "staggeredX (num W) (num hexX) (num (2 * (hexY div 2))) hexWidth = Fin p0"
    using e(1) by (simp add: dw p0_def)
  have 5: "staggeredX (num W) (num hexX) (num (2 * (hexY div 2) + 1)) hexWidth = Fin p1"
    using o(1) by (simp add: dw p1_def)
  have e0: "\<bar>p0 - of_nat hexX * s\<bar> \<le> 1 / 2 ^ 20"
    using e(4) by (simp add: p0_def)
  have e1: "\<bar>p1 - (of_nat hexX + 1/2) * s\<bar> \<le> 1 / 2 ^ 20"
    using o(4) by (simp add: p1_def)
  have 6: "(of_nat hexX + 1/2) * s - of_nat hexX * s = (1/2) * s"
    by (simp add: algebra_simps)
  have "p1 - p0 - (1/2) * s = (p1 - (of_nat hexX + 1/2) * s) - (p0 - of_nat hexX * s)"
    by (simp add: algebra_simps)
  then have "\<bar>p1 - p0 - (1/2) * s\<bar>
             \<le> \<bar>p1 - (of_nat hexX + 1/2) * s\<bar> + \<bar>p0 - of_nat hexX * s\<bar>"
    by (simp only: abs_triangle_ineq4)
  also have "\<dots> \<le> 1 / 2 ^ 20 + 1 / 2 ^ 20"
    using e1 e0 by (rule add_mono)
  finally have 7: "\<bar>p1 - p0 - (1/2) * s\<bar> \<le> 1 / 2 ^ 19"
    by simp
  from 3 4 5 6 7 have "\<exists>s p0 p1.
             scale (num W) hexWidth = Fin s
           \<and> staggeredX (num W) (num hexX) (num (2 * (hexY div 2))) hexWidth = Fin p0
           \<and> staggeredX (num W) (num hexX) (num (2 * (hexY div 2) + 1)) hexWidth = Fin p1
           \<and> p0 = rnd (of_nat hexX * s) \<and> p1 = rnd ((of_nat hexX + 1/2) * s)
           \<and> (of_nat hexX + 1/2) * s - of_nat hexX * s = (1/2) * s
           \<and> \<bar>p1 - p0 - (1/2) * s\<bar> \<le> 1 / 2 ^ 19"
    unfolding p0_def p1_def by blast
  with 1 2 show ?thesis
    by blast
qed

lemma mapX_4: "mapX 4 3 1 0 = 1"
  by code_simp

theorem mapper_binary64_witness:
  "1 < extent (hexWidth_of (num (unat (4 :: 32 word)))) \<and>
   0 < extent (hexHeight_of (num (unat (4 :: 32 word)))) \<and>
   centerX (num 4) (num 1) (num 0) (num 3) = Fin 1 \<and>
   centerY (num 4) (num 0) (num 3) = Fin 0 \<and>
   (\<exists>s p0 p1.
       scale (num 4) (num 3) = Fin s
     \<and> staggeredX (num 4) (num 1) (num 0) (num 3) = Fin p0
     \<and> staggeredX (num 4) (num 1) (num 1) (num 3) = Fin p1
     \<and> \<bar>p1 - p0 - (1/2) * s\<bar> \<le> 1 / 2 ^ 19)"
proof -
  have u4: "unat (4 :: 32 word) = 4"
    by simp
  have dw: "hexWidth_of (num 4) = num 3" and dh: "hexHeight_of (num 4) = num 3"
    using hexWidth_of_num [of 4] hexHeight_of_num [of 4] by simp_all
  have x: "1 < extent (hexWidth_of (num (unat (4 :: 32 word))))"
    and y: "0 < extent (hexHeight_of (num (unat (4 :: 32 word))))"
    unfolding u4 dw dh extent_num by simp_all
  have z: "2 * (0 div 2) = (0 :: nat)" "0 + 1 = (1 :: nat)"
    by simp_all
  note r = mapper_binary64 [OF x y, unfolded u4 dw dh extent_num z mapX_4 mapY_origin]
  from r have "centerX (num 4) (num 1) (num 0) (num 3) = Fin 1"
    and "centerY (num 4) (num 0) (num 3) = Fin 0"
    by simp_all
  moreover from r have "\<exists>s p0 p1.
       scale (num 4) (num 3) = Fin s
     \<and> staggeredX (num 4) (num 1) (num 0) (num 3) = Fin p0
     \<and> staggeredX (num 4) (num 1) (num 1) (num 3) = Fin p1
     \<and> \<bar>p1 - p0 - (1/2) * s\<bar> \<le> 1 / 2 ^ 19"
    by blast
  ultimately show ?thesis
    using x y by blast
qed

text \<open>
  The claim as stated fails in either reading of its arithmetic. In binary64, as the code
  computes: for a source four pixels wide (three output columns), column \<open>1\<close>, the
  pre-rounding centers of an even and an odd row are \<open>scaleX\<close> and \<open>2\<close>, and
  \<open>2 - scaleX\<close> is not \<open>0.5 * scaleX\<close>. In exact arithmetic: for a source \<open>34\<close> pixels wide
  (\<open>28\<close> output columns), column \<open>21\<close> of an even row, the formula gives
  \<open>round(25.5) = 26\<close> and the code gives \<open>25\<close>.
\<close>

theorem mapper_binary64_counterexample:
  "hexWidth_of (num 4) = num 3 \<and>
   scale (num 4) (num 3) = Fin (6004799503160661 / 2 ^ 52) \<and>
   staggeredX (num 4) (num 1) (num 0) (num 3) = Fin (6004799503160661 / 2 ^ 52) \<and>
   staggeredX (num 4) (num 1) (num 1) (num 3) = Fin 2 \<and>
   (2 :: rat) - 6004799503160661 / 2 ^ 52 \<noteq> (1/2) * (6004799503160661 / 2 ^ 52) \<and>
   hexWidth_of (num 34) = num 28 \<and>
   centerX (num 34) (num 21) (num 0) (num 28) = Fin 25 \<and>
   round_half_away ((21 + 0 * (1/2)) * (34 / 28)) = 26"
proof -
  have 1: "hexWidth_of (num 4) = num 3" and 6: "hexWidth_of (num 34) = num 28"
    using hexWidth_of_num [of 4] hexWidth_of_num [of 34] by simp_all
  have 2: "scale (num 4) (num 3) = Fin (6004799503160661 / 2 ^ 52)"
    by code_simp
  have 3: "staggeredX (num 4) (num 1) (num 0) (num 3) = Fin (6004799503160661 / 2 ^ 52)"
    by code_simp
  have 4: "staggeredX (num 4) (num 1) (num 1) (num 3) = Fin 2"
    by code_simp
  have 5: "(2 :: rat) - 6004799503160661 / 2 ^ 52 \<noteq> (1/2) * (6004799503160661 / 2 ^ 52)"
    by simp
  have 7: "centerX (num 34) (num 21) (num 0) (num 28) = Fin 25"
    by code_simp
  have 8: "round_half_away ((21 + 0 * (1/2)) * (34 / 28)) = 26"
    by code_simp
  from 1 2 3 4 5 6 7 8 show ?thesis
    by blast
qed

end
